theory Spec2Isabelle
  imports Complex_Main "HOL-Library.Word"
begin

unbundle bit_operations_syntax

section \<open>The cloner target (cmd/cdi-cloner/clonertarget.go)\<close>

text \<open>
  The program reads a 16 byte size header from a named pipe, reopens the pipe, and relays
  the payload through a byte-counting reader into one of two writers, while a background
  goroutine publishes the progress as a Prometheus counter. Every call that leaves the
  process (the file system, the pipe, the two writers) is modelled by its outcome, given
  in a record \<open>env\<close>, and by an event appended to a trace. Go's \<open>(value, error)\<close>
  results are pairs \<open>value \<times> err option\<close>; \<open>os.Exit\<close> and \<open>panic\<close> are values of
  \<open>exit\<close>. The log lines that \<open>main\<close> and \<open>readTotal\<close> write are not modelled.
\<close>

subsection \<open>Errors, byte streams and files\<close>

text \<open>
  The error values the program can hold: \<open>io.EOF\<close>, the \<open>errors.New\<close> of \<open>readTotal\<close>,
  the two \<open>strconv.NumError\<close> kinds, \<open>os.ErrNotExist\<close>, and any other error of the
  operating system.
\<close>

datatype err = EOF | ErrShortHeader | ErrSyntax | ErrRange | ErrNotExist | ErrOS string

text \<open>
  An \<open>io.Reader\<close> is modelled by what its successive \<open>Read\<close> calls deliver: a list of
  chunks, each with the error returned together with its last byte (\<open>None\<close> for \<open>nil\<close>).
  A \<open>Read\<close> into a buffer of \<open>k\<close> bytes returns at most \<open>k\<close> bytes and at most the
  chunk at the head of the stream; what does not fit stays for the next call. After the
  last chunk a \<open>Read\<close> returns 0 bytes and \<open>io.EOF\<close>. A pipe that the producer fills by
  several writes is a stream of several chunks.
\<close>

type_synonym stream = "(string \<times> err option) list"

record osFile =
  fd :: nat
  pending :: stream

fun stream_Read :: "nat \<Rightarrow> stream \<Rightarrow> (string \<times> err option) \<times> stream" where
  "stream_Read k [] = (([], Some EOF), [])"
| "stream_Read k ((d, e) # rest) =
     (if length d \<le> k then ((d, e), rest)
      else ((take k d, None), (drop k d, e) # rest))"

definition file_Read :: "nat \<Rightarrow> osFile \<Rightarrow> (string \<times> err option) \<times> osFile" where
  "file_Read k f =
     (case stream_Read k (pending f) of (res, s') \<Rightarrow> (res, f\<lparr>pending := s'\<rparr>))"

subsection \<open>strconv.ParseUint(s, 16, 64)\<close>

text \<open>
  The loop of Go's \<open>strconv.ParseUint\<close>, at base 16 and bit size 64: \<open>lower\<close> is
  \<open>c | ('x' - 'X')\<close>, \<open>digit\<close> the switch on the byte (\<open>None\<close> is its default branch),
  \<open>cutoff\<close> is \<open>maxUint64/16 + 1\<close> and \<open>maxVal\<close> is \<open>1<<64 - 1\<close> in \<open>uint64\<close>. A syntax
  error returns 0, a range error returns \<open>maxVal\<close>.
\<close>

definition lower :: "8 word \<Rightarrow> 8 word" where
  "lower c = c OR (0x78 - 0x58)"

definition digit :: "8 word \<Rightarrow> 8 word option" where
  "digit c =
     (if 0x30 \<le> c \<and> c \<le> 0x39 then Some (c - 0x30)
      else if 0x61 \<le> lower c \<and> lower c \<le> 0x7A then Some (lower c - 0x61 + 10)
      else None)"

definition maxUint64 :: "64 word" where
  "maxUint64 = - 1"

definition cutoff :: "64 word" where
  "cutoff = maxUint64 div 16 + 1"

definition maxVal :: "64 word" where
  "maxVal = push_bit 64 1 - 1"

fun parse_loop :: "64 word \<Rightarrow> string \<Rightarrow> 64 word \<times> err option" where
  "parse_loop n [] = (n, None)"
| "parse_loop n (c # cs) =
     (case digit (of_char c) of
        None \<Rightarrow> (0, Some ErrSyntax)
      | Some d \<Rightarrow>
          if d \<ge> 16 then (0, Some ErrSyntax)
          else if n \<ge> cutoff then (maxVal, Some ErrRange)
          else
            let n' = n * 16; n1 = n' + ucast d
            in if n1 < n' \<or> n1 > maxVal then (maxVal, Some ErrRange)
               else parse_loop n1 cs)"

definition ParseUint :: "string \<Rightarrow> 64 word \<times> err option" where
  "ParseUint s = (if s = [] then (0, Some ErrSyntax) else parse_loop 0 s)"

subsection \<open>readTotal\<close>

text \<open>
  One \<open>Read\<close> into a buffer of 16 zero bytes. An error of the \<open>Read\<close> is returned as it
  is, with 0; a \<open>Read\<close> of fewer than 16 bytes gives the error "Didn't read all bytes for
  size header" (\<open>ErrShortHeader\<close>), with 0; otherwise the buffer is parsed.
\<close>

definition readTotal :: "osFile \<Rightarrow> (64 word \<times> err option) \<times> osFile" where
  "readTotal r =
     (case file_Read 16 r of
        ((d, e), r') \<Rightarrow>
          let n = length d; b = d @ replicate (16 - n) (CHR 0x00)
          in case e of
               Some x \<Rightarrow> ((0, Some x), r')
             | None \<Rightarrow>
                 if n \<noteq> length b then ((0, Some ErrShortHeader), r')
                 else (ParseUint b, r'))"

subsection \<open>The value of a hexadecimal numeral\<close>

text \<open>
  What the specification calls an unsigned integer encoded as hexadecimal ASCII text:
  the digits \<open>0\<close> to \<open>9\<close> (codes 48 to 57), \<open>a\<close> to \<open>f\<close> (97 to 102) and \<open>A\<close> to \<open>F\<close>
  (65 to 70), most significant first. \<open>hex_value s\<close> is \<open>None\<close> when \<open>s\<close> is empty or
  holds any other byte.
\<close>

definition hex_digit_value :: "char \<Rightarrow> nat option" where
  "hex_digit_value c =
     (let n = of_char c :: nat
      in if 48 \<le> n \<and> n \<le> 57 then Some (n - 48)
         else if 97 \<le> n \<and> n \<le> 102 then Some (n - 87)
         else if 65 \<le> n \<and> n \<le> 70 then Some (n - 55)
         else None)"

fun hex_value_from :: "nat \<Rightarrow> string \<Rightarrow> nat option" where
  "hex_value_from acc [] = Some acc"
| "hex_value_from acc (c # cs) =
     (case hex_digit_value c of
        None \<Rightarrow> None
      | Some d \<Rightarrow> hex_value_from (16 * acc + d) cs)"

definition hex_value :: "string \<Rightarrow> nat option" where
  "hex_value s = (if s = [] then None else hex_value_from 0 s)"

text \<open>The digit that the loop of \<open>ParseUint\<close> accepts at base 16, as a number.\<close>

definition digit16 :: "8 word \<Rightarrow> nat option" where
  "digit16 c =
     (case digit c of
        None \<Rightarrow> None
      | Some d \<Rightarrow> if d \<ge> 16 then None else Some (unat d))"

subsection \<open>The counting reader\<close>

text \<open>
  Modelled from the spec: the struct \<open>util.CountingReader\<close> (package \<open>pkg/util\<close>, not among
  the sources). Its two fields are the ones the struct literal in \<open>main\<close> sets; the
  counter is the unsigned 64 bit \<open>bytes_transferred\<close> of the data model (section 3).
\<close>

record countingReader =
  Reader :: osFile
  Current :: "64 word"


record prometheusProgressReader =
  CountingReader :: countingReader
  total :: "64 word"

subsection \<open>The progress reporter\<close>

text \<open>
  The reporter is written over a linearly ordered type \<open>'f\<close> with a zero and the
  operations on it that the program and the Prometheus counter use, given as a record:
  the conversions \<open>float64(x)\<close> of a \<open>uint64\<close> and \<open>uint64(v)\<close> of a \<open>float64\<close>, the constant
  \<open>100.0\<close>, and the four arithmetic operations. The type \<open>float64\<close> and its operations
  \<open>ieee_ops\<close> are defined below.
\<close>

record 'f float64_ops =
  fromUint64 :: "64 word \<Rightarrow> 'f"
  toUint64 :: "'f \<Rightarrow> 64 word"
  hundred :: 'f
  fdiv :: "'f \<Rightarrow> 'f \<Rightarrow> 'f"
  fmul :: "'f \<Rightarrow> 'f \<Rightarrow> 'f"
  fsub :: "'f \<Rightarrow> 'f \<Rightarrow> 'f"
  fadd :: "'f \<Rightarrow> 'f \<Rightarrow> 'f"

text \<open>
  The counter of the Prometheus client library (\<open>client_golang\<close>, \<open>prometheus/counter.go\<close>,
  from version 0.9 on; a library the program imports, not part of the repository). It
  keeps two fields: \<open>valBits\<close>, a \<open>float64\<close>, and \<open>valInt\<close>, a \<open>uint64\<close>. \<open>Add(v)\<close> panics when
  \<open>v < 0\<close>; when \<open>v\<close> is a whole number (\<open>float64(uint64(v)) == v\<close>) it adds \<open>uint64(v)\<close> to
  \<open>valInt\<close>, an addition of \<open>uint64\<close> that wraps around at \<open>2^64\<close>; otherwise it adds \<open>v\<close> to
  \<open>valBits\<close>. \<open>Write\<close> publishes \<open>valBits + float64(valInt)\<close>.
\<close>

record 'f counter =
  valBits :: 'f
  valInt :: "64 word"

datatype panic = CounterCannotDecrease

definition Counter_Add ::
  "('f::{linorder,zero}) float64_ops \<Rightarrow> 'f \<Rightarrow> 'f counter \<Rightarrow> panic + 'f counter" where
  "Counter_Add ops v c =
     (if v < 0 then Inl CounterCannotDecrease
      else
        let ival = toUint64 ops v
        in if fromUint64 ops ival = v then Inr (c\<lparr>valInt := valInt c + ival\<rparr>)
           else Inr (c\<lparr>valBits := fadd ops (valBits c) v\<rparr>))"

definition Counter_Write :: "'f float64_ops \<Rightarrow> 'f counter \<Rightarrow> 'f" where
  "Counter_Write ops c = fadd ops (valBits c) (fromUint64 ops (valInt c))"

text \<open>
  The counter vector \<open>progress\<close> (\<open>clone_progress\<close>, one counter for each value of the
  label \<open>ownerUID\<close>), together with a log of what a tick does: the division, the read of
  the counter with the value read, the \<open>Add\<close> with its argument, and the line written by
  \<open>klog\<close>.
\<close>

datatype 'f tick_event =
    Divide "64 word" "64 word"
  | WriteMetric string 'f
  | AddMetric string 'f
  | Infoln 'f

record 'f registry =
  clone_progress :: "string \<Rightarrow> 'f counter"
  tick_log :: "'f tick_event list"

definition updateProgress ::
  "('f::{linorder,zero}) float64_ops \<Rightarrow> string \<Rightarrow> prometheusProgressReader \<Rightarrow> 'f registry
     \<Rightarrow> panic + 'f registry" where
  "updateProgress ops ownerUID r m =
     (if total r > 0 then
        let currentProgress =
              fmul ops (fdiv ops (fromUint64 ops (Current (CountingReader r)))
                                 (fromUint64 ops (total r)))
                       (hundred ops);
            m1 = m\<lparr>tick_log := tick_log m @ [Divide (Current (CountingReader r)) (total r)]\<rparr>;
            metric = Counter_Write ops (clone_progress m1 ownerUID);
            m2 = m1\<lparr>tick_log := tick_log m1 @ [WriteMetric ownerUID metric]\<rparr>
        in case (if currentProgress > metric
                 then (case Counter_Add ops (fsub ops currentProgress metric)
                              (clone_progress m2 ownerUID) of
                         Inl p \<Rightarrow> Inl p
                       | Inr c \<Rightarrow>
                           Inr (m2\<lparr>clone_progress := (clone_progress m2)(ownerUID := c),
                                    tick_log := tick_log m2
                                      @ [AddMetric ownerUID (fsub ops currentProgress metric)]\<rparr>))
                 else Inr m2) of
             Inl p \<Rightarrow> Inl p
           | Inr m3 \<Rightarrow> Inr (m3\<lparr>tick_log := tick_log m3 @ [Infoln currentProgress]\<rparr>)
      else Inr m)"

text \<open>
  \<open>timedUpdateProgress\<close> is \<open>for true { time.Sleep(time.Second); r.updateProgress() }\<close>.
  It never returns; the model runs a finite prefix of it. The main goroutine changes
  \<open>r.Current\<close> between two ticks, so the prefix is given by the values of \<open>r.Current\<close>
  that the successive ticks read.
\<close>

fun timedUpdateProgress ::
  "('f::{linorder,zero}) float64_ops \<Rightarrow> string \<Rightarrow> prometheusProgressReader \<Rightarrow> 64 word list
     \<Rightarrow> 'f registry \<Rightarrow> panic + 'f registry" where
  "timedUpdateProgress ops ownerUID r [] m = Inr m"
| "timedUpdateProgress ops ownerUID r (c # cs) m =
     (case updateProgress ops ownerUID
             (r\<lparr>CountingReader := (CountingReader r)\<lparr>Current := c\<rparr>\<rparr>) m of
        Inl p \<Rightarrow> Inl p
      | Inr m' \<Rightarrow> timedUpdateProgress ops ownerUID r cs m')"

text \<open>
  The percentage that a tick computes from the two counts, the value that a registry
  publishes for an owner, and the value published after a sequence of ticks (\<open>None\<close> if
  a tick panics).
\<close>

definition percentage :: "'f float64_ops \<Rightarrow> 64 word \<Rightarrow> 64 word \<Rightarrow> 'f" where
  "percentage ops c t = fmul ops (fdiv ops (fromUint64 ops c) (fromUint64 ops t)) (hundred ops)"

definition published :: "'f float64_ops \<Rightarrow> string \<Rightarrow> 'f registry \<Rightarrow> 'f" where
  "published ops ownerUID m = Counter_Write ops (clone_progress m ownerUID)"

definition published_after ::
  "('f::{linorder,zero}) float64_ops \<Rightarrow> string \<Rightarrow> prometheusProgressReader \<Rightarrow> 64 word list
     \<Rightarrow> 'f registry \<Rightarrow> 'f option" where
  "published_after ops ownerUID r cs m =
     (case timedUpdateProgress ops ownerUID r cs m of
        Inl p \<Rightarrow> None
      | Inr m' \<Rightarrow> Some (published ops ownerUID m'))"

subsection \<open>float64\<close>

text \<open>
  The finite \<open>float64\<close> values, by their exact value as a rational. Every finite \<open>float64\<close>
  is a whole multiple of \<open>2^-1074\<close>, the smallest subnormal; \<open>grid\<close> is \<open>2^1074\<close>, so that
  \<open>x * grid\<close> counts \<open>x\<close> in these units. \<open>round53\<close> rounds a non-negative number of units to
  53 significant bits: below \<open>2^53\<close> units (the subnormals and the first binade) to a
  whole number of units, above to a multiple of \<open>2^k\<close>, where \<open>k\<close> is the number of bits
  of the integer part beyond 53. \<open>rne\<close> is rounding to the nearest integer, ties to the
  even one, the rounding mode of Go's arithmetic. \<open>rnd64\<close> rounds a rational to the
  nearest \<open>float64\<close>. An arithmetic operation of Go on \<open>float64\<close> is the exact operation
  followed by \<open>rnd64\<close>. Two things are left out: there is no largest exponent, so no
  result overflows to an infinity, and a division by zero gives 0, not an infinity or a
  NaN. Neither occurs in this program: the lemmas \<open>ieee_percentage_bounded\<close> and
  \<open>ieee_ticks_bounded\<close> below bound its values by \<open>2^73\<close> and its divisor from below by 1.
\<close>

definition rne :: "rat \<Rightarrow> int" where
  "rne x =
     (let f = \<lfloor>x\<rfloor>; r = x - of_int f
      in if r < 1 / 2 then f
         else if 1 / 2 < r then f + 1
         else if even f then f else f + 1)"

fun bitlength :: "nat \<Rightarrow> nat" where
  "bitlength n = (if n = 0 then 0 else Suc (bitlength (n div 2)))"

declare bitlength.simps [simp del]

text \<open>The exponent \<open>k\<close> that \<open>round53\<close> uses, by itself.\<close>

definition expo :: "rat \<Rightarrow> nat" where
  "expo x = bitlength (nat \<lfloor>x\<rfloor>) - 53"

definition round53 :: "rat \<Rightarrow> nat" where
  "round53 x =
     (let k = bitlength (nat \<lfloor>x\<rfloor>) - 53
      in nat (rne (x / 2 ^ k)) * 2 ^ k)"

definition grid :: rat where
  "grid = 2 ^ 1074"

definition rnd64 :: "rat \<Rightarrow> rat" where
  "rnd64 x =
     (if x < 0 then - (of_nat (round53 (- x * grid)) / grid)
      else of_nat (round53 (x * grid)) / grid)"

typedef float64 = "{x :: rat. rnd64 x = x}"
  by (rule exI [of _ 0]) (simp add: rnd64_def round53_def rne_def bitlength.simps)

definition float64_of_rat :: "rat \<Rightarrow> float64" where
  "float64_of_rat x = Abs_float64 (rnd64 x)"

instantiation float64 :: "{zero, linorder}"
begin

definition zero_float64 :: float64 where
  "zero_float64 = Abs_float64 0"

definition less_eq_float64 :: "float64 \<Rightarrow> float64 \<Rightarrow> bool" where
  "less_eq_float64 a b \<longleftrightarrow> Rep_float64 a \<le> Rep_float64 b"

definition less_float64 :: "float64 \<Rightarrow> float64 \<Rightarrow> bool" where
  "less_float64 a b \<longleftrightarrow> Rep_float64 a < Rep_float64 b"

instance
  by standard (auto simp: less_eq_float64_def less_float64_def Rep_float64_inject)

end

text \<open>
  The operations on \<open>float64\<close>: the conversion \<open>float64(x)\<close> of a \<open>uint64\<close>, which rounds;
  the conversion \<open>uint64(v)\<close>, which drops the fraction of a value that fits and gives a
  value that depends on the implementation for one that does not (the parameter \<open>oor\<close>);
  the constant \<open>100.0\<close>; and the four operations, each the exact one followed by
  rounding.
\<close>

definition ieee_ops :: "64 word \<Rightarrow> float64 float64_ops" where
  "ieee_ops oor =
     \<lparr>fromUint64 = (\<lambda>w. float64_of_rat (of_nat (unat w))),
      toUint64 = (\<lambda>a. if - 1 < Rep_float64 a \<and> Rep_float64 a < 2 ^ 64
                         then of_nat (nat \<lfloor>Rep_float64 a\<rfloor>) else oor),
      hundred = float64_of_rat 100,
      fdiv = (\<lambda>a b. float64_of_rat (Rep_float64 a / Rep_float64 b)),
      fmul = (\<lambda>a b. float64_of_rat (Rep_float64 a * Rep_float64 b)),
      fsub = (\<lambda>a b. float64_of_rat (Rep_float64 a - Rep_float64 b)),
      fadd = (\<lambda>a b. float64_of_rat (Rep_float64 a + Rep_float64 b))\<rparr>"

text \<open>
  Exact rational arithmetic, another instance of the operations, for the concrete runs
  below.
\<close>

definition exact_ops :: "rat float64_ops" where
  "exact_ops =
     \<lparr>fromUint64 = (\<lambda>w. of_nat (unat w)), toUint64 = (\<lambda>x. of_nat (nat \<lfloor>x\<rfloor>)),
      hundred = 100,
      fdiv = (\<lambda>a b. a / b), fmul = (\<lambda>a b. a * b),
      fsub = (\<lambda>a b. a - b), fadd = (\<lambda>a b. a + b)\<rparr>"

text \<open>
  A reader of a transfer of 200 bytes that has relayed 50 of them, and the registry before
  the first tick (in exact arithmetic and in \<open>float64\<close>), for the concrete runs of the
  reporter below.
\<close>

definition reader200 :: prometheusProgressReader where
  "reader200 =
     \<lparr>CountingReader = \<lparr>Reader = \<lparr>fd = 1, pending = []\<rparr>, Current = 50\<rparr>, total = 200\<rparr>"

definition registry0 :: "rat registry" where
  "registry0 = \<lparr>clone_progress = (\<lambda>lbl. \<lparr>valBits = 0, valInt = 0\<rparr>), tick_log = []\<rparr>"

definition fresh_registry :: "float64 registry" where
  "fresh_registry = \<lparr>clone_progress = (\<lambda>lbl. \<lparr>valBits = 0, valInt = 0\<rparr>), tick_log = []\<rparr>"

subsection \<open>The process\<close>

text \<open>
  What the run depends on: the \<open>-pipedir\<close> flag as given on the command line (\<open>None\<close>
  when it is left out), the constant \<open>common.ImporterWriteBlockPath\<close> (package
  \<open>pkg/common\<close>, not among the sources), the result of \<open>ioutil.TempDir\<close>, of the two
  \<open>os.OpenFile\<close> calls on the pipe (the stream that the producer's session offers, or an
  error), of \<open>os.Stat\<close> on the marker, and the two writers \<open>util.StreamDataToFile\<close> and
  \<open>util.UnArchiveTar\<close> (package \<open>pkg/util\<close>, not among the sources), which take the
  reader and a path and return an error or \<open>nil\<close>.
\<close>

record env =
  pipedir :: "string option"
  importerWriteBlockPath :: string
  tempDirResult :: "err + string"
  headerOpen :: "err + stream"
  payloadOpen :: "err + stream"
  statResult :: "err option"
  streamDataToFile :: "prometheusProgressReader \<Rightarrow> string \<Rightarrow> err option"
  unArchiveTar :: "prometheusProgressReader \<Rightarrow> string \<Rightarrow> err option"

text \<open>
  The trace of calls. \<open>OpenFile\<close> records the attempt with its result (the handle, or the
  error). \<open>prometheusutil.StartPrometheusEndpoint\<close> (package \<open>pkg/util/prometheus\<close>, not
  among the sources) is a call that returns: the specification treats the metrics
  endpoint as an external collaborator and names no failure of it.
\<close>

datatype event =
    TempDir string
  | RemoveAll string
  | StartPrometheusEndpoint string
  | OpenFile string "err + nat"
  | Read nat nat
  | Close nat
  | Go_timedUpdateProgress prometheusProgressReader
  | Stat string
  | StreamDataToFile prometheusProgressReader string
  | UnArchiveTar prometheusProgressReader string

record world =
  events :: "event list"
  nextFd :: nat

definition emit :: "event \<Rightarrow> world \<Rightarrow> world" where
  "emit e w = w\<lparr>events := events w @ [e]\<rparr>"

text \<open>
  How the process ends: \<open>os.Exit(n)\<close>, which runs no deferred call; a return from \<open>main\<close>,
  which runs them and ends the process with status 0; or a panic, which runs them and
  ends the process with status 2.
\<close>

datatype exit = Exit nat | Panic err

fun exit_status :: "exit \<Rightarrow> nat" where
  "exit_status (Exit n) = n"
| "exit_status (Panic e) = 2"

datatype volumeMode = PersistentVolumeBlock | PersistentVolumeFilesystem

fun IsNotExist :: "err option \<Rightarrow> bool" where
  "IsNotExist (Some ErrNotExist) = True"
| "IsNotExist _ = False"

text \<open>\<open>flag.String("pipedir", "nopipedir", ...)\<close>: the default stands for a missing flag.\<close>

definition namedPipe :: "env \<Rightarrow> string" where
  "namedPipe env = (case pipedir env of None \<Rightarrow> ''nopipedir'' | Some v \<Rightarrow> v)"

text \<open>\<open>os.OpenFile\<close> for reading: each successful call returns a new handle.\<close>

definition os_OpenFile :: "string \<Rightarrow> err + stream \<Rightarrow> world \<Rightarrow> (err + osFile) \<times> world" where
  "os_OpenFile name result w =
     (case result of
        Inl e \<Rightarrow> (Inl e, emit (OpenFile name (Inl e)) w)
      | Inr s \<Rightarrow>
          (Inr \<lparr>fd = nextFd w, pending = s\<rparr>,
           (emit (OpenFile name (Inr (nextFd w))) w)\<lparr>nextFd := Suc (nextFd w)\<rparr>))"

text \<open>The deferred \<open>out.Close()\<close> runs when the function returns, whatever \<open>readTotal\<close> gave.\<close>

definition collectTotalSize :: "env \<Rightarrow> world \<Rightarrow> (64 word \<times> err option) \<times> world" where
  "collectTotalSize env w =
     (case os_OpenFile (namedPipe env) (headerOpen env) w of
        (Inl e, w1) \<Rightarrow> ((0, Some e), w1)
      | (Inr out, w1) \<Rightarrow>
          (case readTotal out of
             (res, out') \<Rightarrow> (res, emit (Close (fd out)) (emit (Read (fd out) 16) w1))))"

definition main :: "env \<Rightarrow> exit \<times> world" where
  "main env =
     (let w0 = \<lparr>events = [], nextFd = 0\<rparr>
      in case tempDirResult env of
           Inl e \<Rightarrow> (Panic e, w0)
         | Inr certsDirectory \<Rightarrow>
             let w1 = emit (StartPrometheusEndpoint certsDirectory)
                        (emit (TempDir certsDirectory) w0)
             in if namedPipe env = ''nopipedir'' then (Exit 1, w1)
                else
                  case collectTotalSize env w1 of
                    ((total_size, Some e), w2) \<Rightarrow> (Exit 1, w2)
                  | ((total_size, None), w2) \<Rightarrow>
                      (case os_OpenFile (namedPipe env) (payloadOpen env) w2 of
                         (Inl e, w3) \<Rightarrow> (Exit 1, w3)
                       | (Inr out, w3) \<Rightarrow>
                           let promReader =
                                 \<lparr>CountingReader = \<lparr>Reader = out, Current = 0\<rparr>,
                                  total = total_size\<rparr>;
                               w4 = emit (Go_timedUpdateProgress promReader) w3;
                               w5 = emit (Stat (importerWriteBlockPath env)) w4;
                               volumeMode =
                                 (if IsNotExist (statResult env) then PersistentVolumeFilesystem
                                  else PersistentVolumeBlock);
                               (result, w6) =
                                 (if volumeMode = PersistentVolumeBlock
                                  then (streamDataToFile env promReader (importerWriteBlockPath env),
                                        emit (StreamDataToFile promReader
                                                (importerWriteBlockPath env)) w5)
                                  else (unArchiveTar env promReader ''.'',
                                        emit (UnArchiveTar promReader ''.'') w5))
                           in case result of
                                Some e \<Rightarrow> (Exit 1, w6)
                              | None \<Rightarrow>
                                  (Exit 0,
                                   emit (RemoveAll certsDirectory) (emit (Close (fd out)) w6))))"

fun is_read :: "event \<Rightarrow> bool" where
  "is_read (Read h k) = True"
| "is_read e = False"

text \<open>
  What a trace shows: the handles opened and not closed after, the temporary directories
  created and not removed after, and which events are a call of a writer, an \<open>OpenFile\<close>
  or a \<open>Read\<close>.
\<close>

fun open_handles :: "event list \<Rightarrow> nat list" where
  "open_handles [] = []"
| "open_handles (OpenFile name (Inr h) # es) =
     (if Close h \<in> set es then open_handles es else h # open_handles es)"
| "open_handles (e # es) = open_handles es"

fun temp_dirs :: "event list \<Rightarrow> string list" where
  "temp_dirs [] = []"
| "temp_dirs (TempDir d # es) =
     (if RemoveAll d \<in> set es then temp_dirs es else d # temp_dirs es)"
| "temp_dirs (e # es) = temp_dirs es"

fun is_writer :: "event \<Rightarrow> bool" where
  "is_writer (StreamDataToFile r p) = True"
| "is_writer (UnArchiveTar r p) = True"
| "is_writer e = False"

fun is_open :: "event \<Rightarrow> bool" where
  "is_open (OpenFile name res) = True"
| "is_open e = False"

text \<open>
  A run in which everything succeeds: the header announces 3 bytes, the marker is absent,
  the archive writer returns \<open>nil\<close>. The concrete runs below change one field of it.
\<close>

definition env_ok :: env where
  "env_ok =
     \<lparr>pipedir = Some ''/tmp/clone.pipe'', importerWriteBlockPath = ''/dev/cdi-block-volume'',
      tempDirResult = Inr ''/tmp/certsdir1'',
      headerOpen = Inr [(''0000000000000003'', None)],
      payloadOpen = Inr [(''abc'', None)], statResult = Some ErrNotExist,
      streamDataToFile = (\<lambda>r p. None), unArchiveTar = (\<lambda>r p. None)\<rparr>"

subsection \<open>A consumer of the counting reader\<close>







section \<open>The size header\<close>

subsection \<open>The digits that ParseUint accepts at base 16\<close>

lemma unat_of_char8: "unat (of_char c :: 8 word) = (of_char c :: nat)"
proof -
  have "(of_char c :: 8 word) = of_nat (of_char c)" by (simp add: of_nat_of_char)
  then have "unat (of_char c :: 8 word) = (of_char c :: nat) mod 256"
    by (simp add: unat_of_nat del: of_nat_of_char)
  then show ?thesis  by (simp add: String.of_char_mod_256)
qed
lemma lower_unat: "unat (lower c) = (if bit (unat c) 5 then unat c else unat c + 32)"
proof -
  have "unat (lower c) = unat c OR 32"
    by (simp add: lower_def unsigned_or_eq)
  also have "\<dots> = set_bit 5 (unat c)"
    by (simp add: set_bit_eq_or)
  also have "\<dots> = (if bit (unat c) 5 then unat c else unat c + 32)"
    by (simp add: set_bit_eq)
  finally show ?thesis .
qed


lemma div32_upper: "65 \<le> n \<Longrightarrow> n \<le> 70 \<Longrightarrow> (n::nat) div 32 = 2"
  by (rule div_nat_eqI) simp_all

lemma div32_lower: "97 \<le> n \<Longrightarrow> n \<le> 102 \<Longrightarrow> (n::nat) div 32 = 3"
  by (rule div_nat_eqI) simp_all

lemma hex_letter_nat:
  fixes n L :: nat
  assumes L: "L = (if odd (n div 32) then n else n + 32)"
  shows "(if 97 \<le> L \<and> L \<le> 122 then (if 16 \<le> L - 87 then None else Some (L - 87)) else None) =
         (if 97 \<le> n \<and> n \<le> 102 then Some (n - 87)
          else if 65 \<le> n \<and> n \<le> 70 then Some (n - 55)
          else None)"
proof (cases "odd (n div 32)")
  case True
  then have "L = n" using L by simp
  moreover have "\<not> (65 \<le> n \<and> n \<le> 70)" using True div32_upper [of n] by auto
  ultimately show ?thesis by auto
next
  case False
  then have "L = n + 32" using L by simp
  moreover have "\<not> (97 \<le> n \<and> n \<le> 102)" using False div32_lower [of n] by auto
  ultimately show ?thesis by auto
qed

lemma digit16_unat:
  "digit16 w =
     (let n = unat w
      in if 48 \<le> n \<and> n \<le> 57 then Some (n - 48)
         else if 97 \<le> n \<and> n \<le> 102 then Some (n - 87)
         else if 65 \<le> n \<and> n \<le> 70 then Some (n - 55)
         else None)"
proof (cases "48 \<le> unat w \<and> unat w \<le> 57")
  case True
  then have "0x30 \<le> w \<and> w \<le> 0x39" by (simp add: word_le_nat_alt)
  moreover have "unat (w - 0x30) = unat w - 48" using True by (simp add: unat_sub word_le_nat_alt)
  ultimately show ?thesis using True by (auto simp: digit16_def digit_def word_le_nat_alt)
next
  case False
  then have nd: "\<not> (0x30 \<le> w \<and> w \<le> 0x39)" by (simp add: word_le_nat_alt)
  have l: "unat (lower w) = (if odd (unat w div 32) then unat w else unat w + 32)"
    by (simp add: lower_unat bit_iff_odd)
  have code: "digit16 w =
      (if 97 \<le> unat (lower w) \<and> unat (lower w) \<le> 122
       then (if 16 \<le> unat (lower w) - 87 then None else Some (unat (lower w) - 87)) else None)"
  proof (cases "97 \<le> unat (lower w) \<and> unat (lower w) \<le> 122")
    case inner: True
    then have r: "0x61 \<le> lower w \<and> lower w \<le> 0x7A" by (simp add: word_le_nat_alt)
    have "87 \<le> lower w" using inner by (simp add: word_le_nat_alt)
    then have u: "unat (lower w - 87) = unat (lower w) - 87"
      by (simp add: unat_sub)
    have d: "digit w = Some (lower w - 87)" using nd r by (auto simp: digit_def)
    show ?thesis using inner u by (simp add: digit16_def d word_le_nat_alt)
  next
    case inner: False
    then have r: "\<not> (0x61 \<le> lower w \<and> lower w \<le> 0x7A)" by (simp add: word_le_nat_alt)
    have d: "digit w = None" using nd r by (auto simp: digit_def)
    show ?thesis using inner by (simp add: digit16_def d)
  qed
  show ?thesis
    unfolding code Let_def using False hex_letter_nat [OF l] by simp
qed

lemma digit16_hex: "digit16 (of_char c) = hex_digit_value c"
  by (simp add: digit16_unat hex_digit_value_def unat_of_char8)


lemma cutoff_val: "unat cutoff = 2 ^ 60"
  by (simp add: cutoff_def maxUint64_def)

lemma maxVal_val: "unat maxVal = 2 ^ 64 - 1"
  by (simp add: maxVal_def)

lemma hex_digit_value_less: "hex_digit_value c = Some d \<Longrightarrow> d < 16"
  by (auto simp: hex_digit_value_def Let_def split: if_splits)

lemma digit_of_hex:
  assumes "hex_digit_value c = Some d"
  obtains dw where "digit (of_char c) = Some dw" "\<not> 16 \<le> dw" "unat dw = d"
  using assms digit16_hex [of c]
  by (auto simp: digit16_def split: option.splits if_splits)

lemma digit_of_nonhex:
  assumes "hex_digit_value c = None"
  shows "digit (of_char c) = None \<or> (\<exists>dw. digit (of_char c) = Some dw \<and> 16 \<le> dw)"
  using assms digit16_hex [of c]
  by (auto simp: digit16_def split: option.splits if_splits)

lemma step_unat:
  fixes n :: "64 word" and dw :: "8 word"
  assumes n: "unat n < 16 ^ k" and k: "k \<le> 15" and d: "unat dw < 16"
  shows "unat (n * 16 + ucast dw) = 16 * unat n + unat dw"
    and "16 * unat n + unat dw < 16 ^ Suc k"
    and "unat (n * 16) = 16 * unat n"
    and "unat n < 2 ^ 60"
proof -
  have "(16::nat) ^ k \<le> 16 ^ 15" using k by (intro power_increasing) simp_all
  then show lt: "unat n < 2 ^ 60" using n by simp
  have "Suc (unat n) \<le> 16 ^ k" using n by simp
  then have "16 * Suc (unat n) \<le> 16 * 16 ^ k" by (rule mult_le_mono2)
  then show b: "16 * unat n + unat dw < 16 ^ Suc k" using d by simp
  have "(16::nat) ^ Suc k \<le> 16 ^ 16" using k by (intro power_increasing) simp_all
  then have b64: "16 * unat n + unat dw < 2 ^ 64" using b by simp
  then show m: "unat (n * 16) = 16 * unat n"
    by (simp add: unat_word_ariths)
  have "unat dw < 2 ^ 64" using d by simp
  then have u: "unat (ucast dw :: 64 word) = unat dw"
    by (simp add: unsigned_ucast_eq take_bit_nat_eq_self_iff)
  show "unat (n * 16 + ucast dw) = 16 * unat n + unat dw"
    using b64 by (simp add: unat_word_ariths u)
qed

lemma parse_loop_hex:
  assumes "length cs \<le> 16" and "unat n < 16 ^ (16 - length cs)"
  shows "parse_loop n cs =
           (case hex_value_from (unat n) cs of
              None \<Rightarrow> (0, Some ErrSyntax)
            | Some H \<Rightarrow> (of_nat H, None))
         \<and> (\<forall>H. hex_value_from (unat n) cs = Some H \<longrightarrow> H < 2 ^ 64)"
  using assms
proof (induction cs arbitrary: n)
  case Nil
  then show ?case by simp
next
  case (Cons c cs)
  define k where "k = 16 - length (c # cs)"
  have k: "k \<le> 15" and nk: "unat n < 16 ^ k" and k': "Suc k = 16 - length cs"
    using Cons.prems by (simp_all add: k_def)
  show ?case
  proof (cases "hex_digit_value c")
    case None
    then show ?thesis using digit_of_nonhex [OF None] by auto
  next
    case (Some d)
    then obtain dw where dw: "digit (of_char c) = Some dw" "\<not> 16 \<le> dw" "unat dw = d"
      by (rule digit_of_hex)
    have d16: "unat dw < 16" using dw(3) hex_digit_value_less [OF Some] by simp
    note st = step_unat [OF nk k d16]
    have nc: "\<not> cutoff \<le> n" using st(4) by (simp add: word_le_nat_alt cutoff_val)
    have b64: "16 * unat n + unat dw < 2 ^ 64"
    proof -
      have "(16::nat) ^ Suc k \<le> 16 ^ 16" using k by (intro power_increasing) simp_all
      then show ?thesis using st(2) by simp
    qed
    have nw: "\<not> (n * 16 + ucast dw < n * 16 \<or> maxVal < n * 16 + ucast dw)"
      using b64 by (simp add: word_less_nat_alt st(1) st(3) maxVal_val)
    have IH: "parse_loop (n * 16 + ucast dw) cs =
           (case hex_value_from (16 * unat n + d) cs of
              None \<Rightarrow> (0, Some ErrSyntax)
            | Some H \<Rightarrow> (of_nat H, None))
         \<and> (\<forall>H. hex_value_from (16 * unat n + d) cs = Some H \<longrightarrow> H < 2 ^ 64)"
      using Cons.IH [of "n * 16 + ucast dw"] Cons.prems(1) st(2) dw(3)
      by (simp add: st(1) k')
    show ?thesis
      using IH nc nw by (simp add: dw Some Let_def)
  qed
qed

lemma ParseUint_hex16:
  assumes "length s = 16"
  shows "ParseUint s =
           (case hex_value s of None \<Rightarrow> (0, Some ErrSyntax) | Some H \<Rightarrow> (of_nat H, None))"
    and "hex_value s = Some H \<Longrightarrow> H < 2 ^ 64"
proof -
  have ne: "s \<noteq> []" using assms by auto
  have "unat (0 :: 64 word) < 16 ^ (16 - length s)" using assms by simp
  from parse_loop_hex [OF _ this] assms
  show "ParseUint s =
           (case hex_value s of None \<Rightarrow> (0, Some ErrSyntax) | Some H \<Rightarrow> (of_nat H, None))"
    and "hex_value s = Some H \<Longrightarrow> H < 2 ^ 64"
    using ne by (simp_all add: ParseUint_def hex_value_def)
qed

subsection \<open>What readTotal returns\<close>

lemma file_Read_length: "file_Read k f = ((d, e), f') \<Longrightarrow> length d \<le> k"
  by (cases "pending f") (auto simp: file_Read_def split: if_splits)

lemma readTotal_cases:
  assumes "file_Read 16 r = ((d, e), r')"
  shows "readTotal r =
           (case e of
              Some x \<Rightarrow> ((0, Some x), r')
            | None \<Rightarrow>
                if length d \<noteq> 16 then ((0, Some ErrShortHeader), r')
                else case hex_value d of
                       None \<Rightarrow> ((0, Some ErrSyntax), r')
                     | Some H \<Rightarrow> ((of_nat H, None), r'))"
proof -
  have le: "length d \<le> 16" using assms by (rule file_Read_length)
  show ?thesis
  proof (cases "length d = 16")
    case True
    then show ?thesis
      using assms ParseUint_hex16(1) [OF True]
      by (simp add: readTotal_def split: option.splits)
  next
    case False
    then show ?thesis using assms le by (simp add: readTotal_def split: option.splits)
  qed
qed

text \<open>
  Claim C3, as amended. When the one \<open>Read\<close> that \<open>readTotal\<close> makes delivers 16 bytes
  with no error, and the 16 bytes are a hexadecimal numeral of value \<open>H\<close>, then
  \<open>readTotal\<close> returns \<open>H\<close> with no error; \<open>H\<close> fits the \<open>uint64\<close> result.
\<close>

theorem readTotal_full_header:
  assumes "file_Read 16 r = ((d, None), r')" and "length d = 16" and "hex_value d = Some H"
  shows "readTotal r = ((of_nat H, None), r') \<and> unat (of_nat H :: 64 word) = H"
proof -
  have "H < 2 ^ 64" using assms(2,3) by (rule ParseUint_hex16(2))
  then have "unat (of_nat H :: 64 word) = H" by (simp add: unat_of_nat)
  then show ?thesis using readTotal_cases [OF assms(1)] assms(2,3) by simp
qed

theorem readTotal_full_header_witness:
  "readTotal \<lparr>fd = 0, pending = [(''0000000000000400'', None)]\<rparr>
     = ((1024, None), \<lparr>fd = 0, pending = []\<rparr>)
   \<and> unat (1024 :: 64 word) = 1024"
  using readTotal_full_header
    [of "\<lparr>fd = 0, pending = [(''0000000000000400'', None)]\<rparr>" "''0000000000000400''"
        "\<lparr>fd = 0, pending = []\<rparr>" 1024]
  by (simp add: file_Read_def hex_value_def hex_digit_value_def)

text \<open>
  Claim C3 as stated fails: a source that provides the 16 bytes \<open>0000000000000400\<close> in two
  pieces of 8 bytes is refused, since \<open>readTotal\<close> reads once and the first \<open>Read\<close>
  returns 8 bytes.
\<close>

theorem readTotal_split_header_counterexample:
  "hex_value (concat (map fst [(''00000000'', None :: err option), (''00000400'', None)]))
     = Some 1024
   \<and> fst (readTotal \<lparr>fd = 0, pending = [(''00000000'', None), (''00000400'', None)]\<rparr>)
       = (0, Some ErrShortHeader)"
  by (simp add: readTotal_def file_Read_def hex_value_def hex_digit_value_def)

section \<open>The process\<close>

subsection \<open>The runs of main, path by path\<close>

lemma main_tempdir_fail:
  "tempDirResult env = Inl e \<Longrightarrow> main env = (Panic e, \<lparr>events = [], nextFd = 0\<rparr>)"
  by (simp add: main_def)

lemma main_no_pipe:
  assumes "tempDirResult env = Inr c" and "namedPipe env = ''nopipedir''"
  shows "main env = (Exit 1, \<lparr>events = [TempDir c, StartPrometheusEndpoint c], nextFd = 0\<rparr>)"
  using assms by (simp add: main_def emit_def)

lemma main_header_open_fail:
  assumes "tempDirResult env = Inr c" and "namedPipe env \<noteq> ''nopipedir''"
    and "headerOpen env = Inl e"
  shows "main env =
           (Exit 1, \<lparr>events = [TempDir c, StartPrometheusEndpoint c,
                                 OpenFile (namedPipe env) (Inl e)],
                      nextFd = 0\<rparr>)"
  using assms by (simp add: main_def collectTotalSize_def os_OpenFile_def emit_def)

lemma main_header_error:
  assumes "tempDirResult env = Inr c" and "namedPipe env \<noteq> ''nopipedir''"
    and "headerOpen env = Inr s" and "snd (fst (readTotal \<lparr>fd = 0, pending = s\<rparr>)) = Some x"
  shows "main env =
           (Exit 1, \<lparr>events = [TempDir c, StartPrometheusEndpoint c,
                                 OpenFile (namedPipe env) (Inr 0), Read 0 16, Close 0],
                      nextFd = 1\<rparr>)"
proof -
  obtain v r' where rt: "readTotal \<lparr>fd = 0, pending = s\<rparr> = ((v, Some x), r')"
    using assms(4) by (cases "readTotal \<lparr>fd = 0, pending = s\<rparr>") auto
  show ?thesis
    using assms(1-3) rt
    by (simp add: main_def collectTotalSize_def os_OpenFile_def emit_def)
qed

lemma main_payload_open_fail:
  assumes "tempDirResult env = Inr c" and "namedPipe env \<noteq> ''nopipedir''"
    and "headerOpen env = Inr s" and "fst (readTotal \<lparr>fd = 0, pending = s\<rparr>) = (v, None)"
    and "payloadOpen env = Inl e"
  shows "main env =
           (Exit 1, \<lparr>events = [TempDir c, StartPrometheusEndpoint c,
                                 OpenFile (namedPipe env) (Inr 0), Read 0 16, Close 0,
                                 OpenFile (namedPipe env) (Inl e)],
                      nextFd = 1\<rparr>)"
proof -
  obtain r' where rt: "readTotal \<lparr>fd = 0, pending = s\<rparr> = ((v, None), r')"
    using assms(4) by (cases "readTotal \<lparr>fd = 0, pending = s\<rparr>") auto
  show ?thesis
    using assms(1-3,5) rt
    by (simp add: main_def collectTotalSize_def os_OpenFile_def emit_def)
qed

lemma main_dispatch:
  assumes "tempDirResult env = Inr c" and "namedPipe env \<noteq> ''nopipedir''"
    and "headerOpen env = Inr s" and "fst (readTotal \<lparr>fd = 0, pending = s\<rparr>) = (v, None)"
    and "payloadOpen env = Inr s2"
    and pr: "pr = \<lparr>CountingReader = \<lparr>Reader = \<lparr>fd = 1, pending = s2\<rparr>, Current = 0\<rparr>, total = v\<rparr>"
  shows "main env =
           (let pre = [TempDir c, StartPrometheusEndpoint c,
                       OpenFile (namedPipe env) (Inr 0), Read 0 16, Close 0,
                       OpenFile (namedPipe env) (Inr 1), Go_timedUpdateProgress pr,
                       Stat (importerWriteBlockPath env)];
                (result, call) =
                  (if IsNotExist (statResult env)
                   then (unArchiveTar env pr ''.'', UnArchiveTar pr ''.'')
                   else (streamDataToFile env pr (importerWriteBlockPath env),
                         StreamDataToFile pr (importerWriteBlockPath env)))
            in case result of
                 Some e \<Rightarrow> (Exit 1, \<lparr>events = pre @ [call], nextFd = 2\<rparr>)
               | None \<Rightarrow> (Exit 0, \<lparr>events = pre @ [call, Close 1, RemoveAll c], nextFd = 2\<rparr>))"
proof -
  obtain r' where rt: "readTotal \<lparr>fd = 0, pending = s\<rparr> = ((v, None), r')"
    using assms(4) by (cases "readTotal \<lparr>fd = 0, pending = s\<rparr>") auto
  show ?thesis
    using assms(1-3,5) rt
    by (simp add: main_def collectTotalSize_def os_OpenFile_def emit_def pr Let_def
             split: option.splits)
qed

lemma collectTotalSize_events:
  assumes "headerOpen env = Inr s"
  shows "events (snd (collectTotalSize env w)) =
           events w @ [OpenFile (namedPipe env) (Inr (nextFd w)), Read (nextFd w) 16,
                       Close (nextFd w)]"
  using assms
  by (simp add: collectTotalSize_def os_OpenFile_def emit_def split: prod.splits)

lemma readTotal_fd: "fst (readTotal \<lparr>fd = n, pending = pending r\<rparr>) = fst (readTotal r)"
  by (simp add: readTotal_def file_Read_def Let_def split: prod.splits option.splits)

subsection \<open>Header errors\<close>

text \<open>
  Claim C4, as amended. Let the one \<open>Read\<close> of \<open>readTotal\<close> deliver the bytes \<open>d\<close> and the
  error \<open>e\<close>. \<open>readTotal\<close> fails exactly when the \<open>Read\<close> returned an error, or fewer than
  16 bytes, or 16 bytes that are not a hexadecimal numeral, and every failure returns 0.
  An error of the \<open>Read\<close> (\<open>io.EOF\<close> on an empty stream) is passed on as it is; a short
  \<open>Read\<close> gives the short-header error; bytes that are not hexadecimal give the syntax
  error of \<open>ParseUint\<close>. A run of \<open>main\<close> that gets such an error from the header ends with
  \<open>os.Exit(1)\<close>.
\<close>

theorem readTotal_failure:
  assumes rd: "file_Read 16 r = ((d, e), r')"
    and env: "tempDirResult env = Inr c" "namedPipe env \<noteq> ''nopipedir''"
      "headerOpen env = Inr (pending r)"
  shows "(snd (fst (readTotal r)) \<noteq> None \<longleftrightarrow> e \<noteq> None \<or> length d \<noteq> 16 \<or> hex_value d = None)
       \<and> (snd (fst (readTotal r)) \<noteq> None \<longrightarrow> fst (fst (readTotal r)) = 0)
       \<and> (\<forall>x. e = Some x \<longrightarrow> snd (fst (readTotal r)) = Some x)
       \<and> (e = None \<and> length d \<noteq> 16 \<longrightarrow> snd (fst (readTotal r)) = Some ErrShortHeader)
       \<and> (e = None \<and> length d = 16 \<and> hex_value d = None
            \<longrightarrow> snd (fst (readTotal r)) = Some ErrSyntax)
       \<and> (snd (fst (readTotal r)) \<noteq> None \<longrightarrow> fst (main env) = Exit 1)"
proof -
  have fatal: "snd (fst (readTotal r)) \<noteq> None \<longrightarrow> fst (main env) = Exit 1"
  proof
    assume "snd (fst (readTotal r)) \<noteq> None"
    then obtain x where "snd (fst (readTotal \<lparr>fd = 0, pending = pending r\<rparr>)) = Some x"
      by (auto simp: readTotal_fd)
    from main_header_error [OF env this] show "fst (main env) = Exit 1" by simp
  qed
  show ?thesis
    using readTotal_cases [OF rd] fatal
    by (auto split: option.splits if_splits)
qed

theorem readTotal_failure_witness:
  "snd (fst (readTotal \<lparr>fd = 0, pending = [(''00000000000004g0'', None)]\<rparr>)) = Some ErrSyntax
   \<and> fst (fst (readTotal \<lparr>fd = 0, pending = [(''00000000000004g0'', None)]\<rparr>)) = 0
   \<and> fst (main (env_ok\<lparr>headerOpen := Inr [(''00000000000004g0'', None)]\<rparr>)) = Exit 1"
  using readTotal_failure
    [of "\<lparr>fd = 0, pending = [(''00000000000004g0'', None)]\<rparr>" "''00000000000004g0''" None
        "\<lparr>fd = 0, pending = []\<rparr>" "env_ok\<lparr>headerOpen := Inr [(''00000000000004g0'', None)]\<rparr>"
        "''/tmp/certsdir1''"]
  by (simp add: file_Read_def env_ok_def namedPipe_def hex_value_def hex_digit_value_def)

text \<open>
  Claim C4 as stated fails twice. A stream that holds the 16 bytes \<open>0000000000000400\<close>, the
  last one arriving in a second piece, is good input and is refused; and on an empty
  stream the error is \<open>io.EOF\<close>, not the short-header error.
\<close>

theorem readTotal_short_read_counterexample:
  "hex_value (concat (map fst [(''000000000000040'', None :: err option), (''0'', None)]))
     = Some 1024
   \<and> fst (readTotal \<lparr>fd = 0, pending = [(''000000000000040'', None), (''0'', None)]\<rparr>)
       = (0, Some ErrShortHeader)
   \<and> fst (readTotal \<lparr>fd = 0, pending = []\<rparr>) = (0, Some EOF)"
  by (simp add: readTotal_def file_Read_def hex_value_def hex_digit_value_def)

subsection \<open>Two sessions on the pipe\<close>

text \<open>
  Claim C5. \<open>collectTotalSize\<close>, when the pipe opens, opens it, reads once and closes the
  handle before it returns, whatever the read gave. In a run that reaches the payload
  phase, the trace starts with the header session on handle 0, closed, and only then the
  second \<open>OpenFile\<close>, which gives handle 1; no handle is open between the two sessions;
  the reader handed on wraps handle 1 with the payload stream untouched; and the pipe is
  opened exactly twice.
\<close>

theorem two_open_close_cycles:
  assumes "tempDirResult env = Inr c" and "namedPipe env \<noteq> ''nopipedir''"
    and "headerOpen env = Inr s" and "fst (readTotal \<lparr>fd = 0, pending = s\<rparr>) = (v, None)"
    and "payloadOpen env = Inr s2"
  shows "events (snd (collectTotalSize env w)) =
           events w @ [OpenFile (namedPipe env) (Inr (nextFd w)), Read (nextFd w) 16,
                       Close (nextFd w)]
       \<and> take 7 (events (snd (main env))) =
           [TempDir c, StartPrometheusEndpoint c,
            OpenFile (namedPipe env) (Inr 0), Read 0 16, Close 0,
            OpenFile (namedPipe env) (Inr 1),
            Go_timedUpdateProgress
              \<lparr>CountingReader = \<lparr>Reader = \<lparr>fd = 1, pending = s2\<rparr>, Current = 0\<rparr>,
               total = v\<rparr>]
       \<and> open_handles (take 5 (events (snd (main env)))) = []
       \<and> filter is_open (events (snd (main env))) =
           [OpenFile (namedPipe env) (Inr 0), OpenFile (namedPipe env) (Inr 1)]"
  using collectTotalSize_events [OF assms(3), of w] main_dispatch [OF assms refl]
  by (simp add: Let_def split: option.splits prod.splits if_splits)

theorem two_open_close_cycles_witness:
  "events (snd (collectTotalSize env_ok \<lparr>events = [], nextFd = 0\<rparr>)) =
     [OpenFile ''/tmp/clone.pipe'' (Inr 0), Read 0 16, Close 0]
   \<and> filter is_open (events (snd (main env_ok))) =
     [OpenFile ''/tmp/clone.pipe'' (Inr 0), OpenFile ''/tmp/clone.pipe'' (Inr 1)]"
  using two_open_close_cycles
    [of env_ok "''/tmp/certsdir1''" "[(''0000000000000003'', None)]" 3 "[(''abc'', None)]"
        "\<lparr>events = [], nextFd = 0\<rparr>"]
  by (simp add: env_ok_def namedPipe_def readTotal_def file_Read_def ParseUint_def digit_def
        lower_def cutoff_def maxUint64_def maxVal_def)

subsection \<open>The choice of the writer\<close>

text \<open>
  Claim C6. In a run that reaches the dispatch: when \<open>os.Stat\<close> finds the marker, the only
  writer called is \<open>StreamDataToFile\<close>, on the counting reader and the marker path; when
  the marker does not exist, the only writer called is \<open>UnArchiveTar\<close>, on the counting
  reader and the directory \<open>.\<close>; in both cases, and whatever \<open>os.Stat\<close> returns, exactly
  one writer is called.
\<close>

theorem destination_selection:
  assumes "tempDirResult env = Inr c" and "namedPipe env \<noteq> ''nopipedir''"
    and "headerOpen env = Inr s" and "fst (readTotal \<lparr>fd = 0, pending = s\<rparr>) = (v, None)"
    and "payloadOpen env = Inr s2"
    and "pr = \<lparr>CountingReader = \<lparr>Reader = \<lparr>fd = 1, pending = s2\<rparr>, Current = 0\<rparr>, total = v\<rparr>"
  shows "(statResult env = None \<longrightarrow>
            filter is_writer (events (snd (main env))) =
              [StreamDataToFile pr (importerWriteBlockPath env)])
       \<and> (statResult env = Some ErrNotExist \<longrightarrow>
            filter is_writer (events (snd (main env))) = [UnArchiveTar pr ''.''])
       \<and> length (filter is_writer (events (snd (main env)))) = 1"
  using main_dispatch [OF assms]
  by (simp add: Let_def split: option.splits prod.splits if_splits)

theorem destination_selection_witness:
  "filter is_writer (events (snd (main env_ok))) =
     [UnArchiveTar
        \<lparr>CountingReader = \<lparr>Reader = \<lparr>fd = 1, pending = [(''abc'', None)]\<rparr>, Current = 0\<rparr>,
         total = 3\<rparr> ''.'']
   \<and> filter is_writer (events (snd (main (env_ok\<lparr>statResult := None\<rparr>)))) =
     [StreamDataToFile
        \<lparr>CountingReader = \<lparr>Reader = \<lparr>fd = 1, pending = [(''abc'', None)]\<rparr>, Current = 0\<rparr>,
         total = 3\<rparr> ''/dev/cdi-block-volume'']"
  using destination_selection
    [of env_ok "''/tmp/certsdir1''" "[(''0000000000000003'', None)]" 3 "[(''abc'', None)]"
        "\<lparr>CountingReader = \<lparr>Reader = \<lparr>fd = 1, pending = [(''abc'', None)]\<rparr>, Current = 0\<rparr>,
         total = 3\<rparr>"]
    destination_selection
    [of "env_ok\<lparr>statResult := None\<rparr>" "''/tmp/certsdir1''" "[(''0000000000000003'', None)]" 3
        "[(''abc'', None)]"
        "\<lparr>CountingReader = \<lparr>Reader = \<lparr>fd = 1, pending = [(''abc'', None)]\<rparr>, Current = 0\<rparr>,
         total = 3\<rparr>"]
  by (simp add: env_ok_def namedPipe_def readTotal_def file_Read_def ParseUint_def digit_def
        lower_def cutoff_def maxUint64_def maxVal_def)

subsection \<open>Exit status\<close>

text \<open>
  Claim C8, as amended. The exit status is 0 when every step succeeds, and 1 when the
  pipe flag is missing, when the header cannot be opened, read or parsed, when the pipe
  cannot be reopened, and when the writer returns an error. None of these is retried: a
  run opens the pipe at most twice, reads the header at most once and calls at most one
  writer. One error ends the process otherwise: when \<open>ioutil.TempDir\<close> fails, \<open>main\<close>
  panics, and the status is 2.
\<close>

theorem main_exit_status:
  "exit_status (fst (main env)) =
     (case tempDirResult env of
        Inl e \<Rightarrow> 2
      | Inr c \<Rightarrow>
          if namedPipe env = ''nopipedir'' then 1
          else case headerOpen env of
                 Inl e \<Rightarrow> 1
               | Inr s \<Rightarrow>
                   (case fst (readTotal \<lparr>fd = 0, pending = s\<rparr>) of
                      (v, Some e) \<Rightarrow> 1
                    | (v, None) \<Rightarrow>
                        (case payloadOpen env of
                           Inl e \<Rightarrow> 1
                         | Inr s2 \<Rightarrow>
                             (case (if IsNotExist (statResult env)
                                    then unArchiveTar env
                                           \<lparr>CountingReader =
                                              \<lparr>Reader = \<lparr>fd = 1, pending = s2\<rparr>, Current = 0\<rparr>,
                                            total = v\<rparr> ''.''
                                    else streamDataToFile env
                                           \<lparr>CountingReader =
                                              \<lparr>Reader = \<lparr>fd = 1, pending = s2\<rparr>, Current = 0\<rparr>,
                                            total = v\<rparr> (importerWriteBlockPath env)) of
                                Some e \<Rightarrow> 1
                              | None \<Rightarrow> 0))))
   \<and> length (filter is_open (events (snd (main env)))) \<le> 2
   \<and> length (filter is_read (events (snd (main env)))) \<le> 1
   \<and> length (filter is_writer (events (snd (main env)))) \<le> 1"
proof (cases "tempDirResult env")
  case (Inl e)
  then show ?thesis by (simp add: main_tempdir_fail)
next
  case c: (Inr c)
  show ?thesis
  proof (cases "namedPipe env = ''nopipedir''")
    case True
    then show ?thesis using c by (simp add: main_no_pipe [OF c True])
  next
    case np: False
    show ?thesis
    proof (cases "headerOpen env")
      case (Inl e)
      then show ?thesis using c np by (simp add: main_header_open_fail [OF c np Inl])
    next
      case s: (Inr s)
      obtain v x where rt: "fst (readTotal \<lparr>fd = 0, pending = s\<rparr>) = (v, x)"
        by (cases "fst (readTotal \<lparr>fd = 0, pending = s\<rparr>)")
      show ?thesis
      proof (cases x)
        case (Some e)
        then have "snd (fst (readTotal \<lparr>fd = 0, pending = s\<rparr>)) = Some e" using rt by simp
        from main_header_error [OF c np s this] show ?thesis using c np s rt Some by simp
      next
        case None
        then have ok: "fst (readTotal \<lparr>fd = 0, pending = s\<rparr>) = (v, None)" using rt by simp
        show ?thesis
        proof (cases "payloadOpen env")
          case (Inl e)
          from main_payload_open_fail [OF c np s ok Inl] show ?thesis
            using c np s ok Inl by simp
        next
          case (Inr s2)
          from main_dispatch [OF c np s ok Inr refl] show ?thesis
            using c np s ok Inr by (simp add: Let_def split: option.splits)
        qed
      qed
    qed
  qed
qed

text \<open>
  Claim C8 as stated fails: an error of \<open>ioutil.TempDir\<close> produces a panic, with exit
  status 2 and not 1.
\<close>

theorem tempdir_panic_counterexample:
  "fst (main (env_ok\<lparr>tempDirResult := Inl (ErrOS ''read-only file system'')\<rparr>))
     = Panic (ErrOS ''read-only file system'')
   \<and> exit_status (fst (main (env_ok\<lparr>tempDirResult := Inl (ErrOS ''read-only file system'')\<rparr>)))
     = 2"
  by (simp add: main_def env_ok_def)

subsection \<open>What is left behind at exit\<close>

text \<open>Every run that ends with \<open>os.Exit(1)\<close> leaves the temporary directory behind.\<close>

lemma exit_1_leaves_temp_dir:
  assumes "fst (main env) = Exit 1"
  shows "\<exists>c. tempDirResult env = Inr c \<and> temp_dirs (events (snd (main env))) = [c]"
proof (cases "tempDirResult env")
  case (Inl e)
  then show ?thesis using assms by (simp add: main_tempdir_fail)
next
  case c: (Inr c)
  show ?thesis
  proof (cases "namedPipe env = ''nopipedir''")
    case True
    then show ?thesis using c by (simp add: main_no_pipe [OF c True])
  next
    case np: False
    show ?thesis
    proof (cases "headerOpen env")
      case (Inl e)
      then show ?thesis using c by (simp add: main_header_open_fail [OF c np Inl])
    next
      case s: (Inr s)
      obtain v x where rt: "fst (readTotal \<lparr>fd = 0, pending = s\<rparr>) = (v, x)"
        by (cases "fst (readTotal \<lparr>fd = 0, pending = s\<rparr>)")
      show ?thesis
      proof (cases x)
        case (Some e)
        then have "snd (fst (readTotal \<lparr>fd = 0, pending = s\<rparr>)) = Some e" using rt by simp
        from main_header_error [OF c np s this] show ?thesis using c by simp
      next
        case None
        then have ok: "fst (readTotal \<lparr>fd = 0, pending = s\<rparr>) = (v, None)" using rt by simp
        show ?thesis
        proof (cases "payloadOpen env")
          case (Inl e)
          from main_payload_open_fail [OF c np s ok Inl] show ?thesis using c by simp
        next
          case (Inr s2)
          from main_dispatch [OF c np s ok Inr refl] assms show ?thesis
            using c by (simp add: Let_def split: option.splits if_splits)
        qed
      qed
    qed
  qed
qed

text \<open>
  Claim C9 fails on the code. \<open>os.Exit\<close> runs no deferred call, so a run that ends with
  \<open>os.Exit(1)\<close> never reaches \<open>os.RemoveAll(certsDirectory)\<close>, nor \<open>out.Close()\<close> once the
  payload handle is open. With the flag left out the temporary directory is left behind;
  when the writer fails, so are the directory and the open handle 1. On the successful
  run both are released.
\<close>

theorem exit_skips_deferred_cleanup:
  "fst (main (env_ok\<lparr>pipedir := None\<rparr>)) = Exit 1
   \<and> temp_dirs (events (snd (main (env_ok\<lparr>pipedir := None\<rparr>)))) = [''/tmp/certsdir1'']
   \<and> fst (main (env_ok\<lparr>unArchiveTar := (\<lambda>r p. Some (ErrOS ''no space left on device''))\<rparr>))
       = Exit 1
   \<and> open_handles (events (snd (main
         (env_ok\<lparr>unArchiveTar := (\<lambda>r p. Some (ErrOS ''no space left on device''))\<rparr>)))) = [1]
   \<and> temp_dirs (events (snd (main
         (env_ok\<lparr>unArchiveTar := (\<lambda>r p. Some (ErrOS ''no space left on device''))\<rparr>))))
       = [''/tmp/certsdir1'']
   \<and> fst (main env_ok) = Exit 0
   \<and> open_handles (events (snd (main env_ok))) = []
   \<and> temp_dirs (events (snd (main env_ok))) = []"
  by (simp add: main_def env_ok_def namedPipe_def collectTotalSize_def os_OpenFile_def emit_def
        readTotal_def file_Read_def ParseUint_def digit_def Let_def
        lower_def cutoff_def maxUint64_def maxVal_def)

subsection \<open>The sentinel of the pipe flag\<close>

text \<open>
  Claim C10, as amended. A run with \<open>-pipedir=nopipedir\<close> is the same run as one without
  the flag, and it never opens the pipe. It ends with \<open>os.Exit(1)\<close> when the temporary
  directory has been made, and with the panic of \<open>main\<close> when \<open>ioutil.TempDir\<close> fails.
\<close>

theorem nopipedir_sentinel:
  "main (env\<lparr>pipedir := Some ''nopipedir''\<rparr>) = main (env\<lparr>pipedir := None\<rparr>)
   \<and> filter is_open (events (snd (main (env\<lparr>pipedir := Some ''nopipedir''\<rparr>)))) = []
   \<and> fst (main (env\<lparr>pipedir := Some ''nopipedir''\<rparr>))
       = (case tempDirResult env of Inl e \<Rightarrow> Panic e | Inr c \<Rightarrow> Exit 1)"
  by (cases "tempDirResult env") (simp_all add: main_def namedPipe_def emit_def)

theorem nopipedir_sentinel_witness:
  "main (env_ok\<lparr>pipedir := Some ''nopipedir''\<rparr>) = main (env_ok\<lparr>pipedir := None\<rparr>)
   \<and> filter is_open (events (snd (main (env_ok\<lparr>pipedir := Some ''nopipedir''\<rparr>)))) = []
   \<and> fst (main (env_ok\<lparr>pipedir := Some ''nopipedir''\<rparr>)) = Exit 1"
proof -
  have "(case tempDirResult env_ok of Inl e \<Rightarrow> Panic e | Inr c \<Rightarrow> Exit 1) = Exit 1"
    by (simp add: env_ok_def)
  with nopipedir_sentinel [of env_ok] show ?thesis by metis
qed

text \<open>
  Claim C10 as stated fails: when \<open>ioutil.TempDir\<close> fails, the run with
  \<open>-pipedir=nopipedir\<close> and the run without the flag both end in a panic, with exit status
  2 and not 1.
\<close>

theorem nopipedir_tempdir_counterexample:
  "fst (main (env_ok\<lparr>pipedir := Some ''nopipedir'',
                     tempDirResult := Inl (ErrOS ''no space left on device'')\<rparr>))
     = Panic (ErrOS ''no space left on device'')
   \<and> fst (main (env_ok\<lparr>pipedir := None,
                       tempDirResult := Inl (ErrOS ''no space left on device'')\<rparr>))
     = Panic (ErrOS ''no space left on device'')
   \<and> exit_status (fst (main (env_ok\<lparr>pipedir := Some ''nopipedir'',
                     tempDirResult := Inl (ErrOS ''no space left on device'')\<rparr>))) = 2"
  by (simp add: main_def env_ok_def)

section \<open>The counting reader\<close>




section \<open>float64 arithmetic\<close>

subsection \<open>Rounding is monotone and leaves a float64 as it is\<close>

lemma rne_of_int [simp]: "rne (of_int n) = n"
  by (simp add: rne_def)

lemma rne_lower: "\<lfloor>x\<rfloor> \<le> rne x"
  by (simp add: rne_def Let_def)

lemma rne_upper: "rne x \<le> \<lfloor>x\<rfloor> + 1"
  by (simp add: rne_def Let_def)

lemma rne_floor_eq: "\<lfloor>x\<rfloor> = \<lfloor>y\<rfloor> \<Longrightarrow> x \<le> y \<Longrightarrow> rne x \<le> rne y"
  by (auto simp: rne_def Let_def)

lemma rne_mono:
  assumes "x \<le> y"
  shows "rne x \<le> rne y"
proof (cases "\<lfloor>x\<rfloor> = \<lfloor>y\<rfloor>")
  case True
  then show ?thesis using assms by (rule rne_floor_eq)
next
  case False
  then have "\<lfloor>x\<rfloor> < \<lfloor>y\<rfloor>" using assms floor_mono [of x y] by simp
  then have "\<lfloor>x\<rfloor> + 1 \<le> \<lfloor>y\<rfloor>" by simp
  then show ?thesis using rne_upper [of x] rne_lower [of y] by linarith
qed


lemma bitlength_0 [simp]: "bitlength 0 = 0"
  by (simp add: bitlength.simps)

lemma bitlength_upper: "n < 2 ^ bitlength n"
proof (induction n rule: bitlength.induct)
  case (1 n)
  show ?case
  proof (cases "n = 0")
    case True
    then show ?thesis by simp
  next
    case False
    then have "n div 2 < 2 ^ bitlength (n div 2)" by (rule "1.IH")
    then have "n < 2 * 2 ^ bitlength (n div 2)" by linarith
    then show ?thesis using False by (subst bitlength.simps) simp
  qed
qed

lemma bitlength_lower: "0 < n \<Longrightarrow> 2 ^ (bitlength n - 1) \<le> n"
proof (induction n rule: bitlength.induct)
  case (1 n)
  then have ne: "n \<noteq> 0" by simp
  show ?case
  proof (cases "n div 2 = 0")
    case True
    then show ?thesis using ne by (subst bitlength.simps) simp
  next
    case False
    then have "2 ^ (bitlength (n div 2) - 1) \<le> n div 2" using "1.IH" [OF ne] by simp
    moreover have "0 < bitlength (n div 2)" using False by (subst bitlength.simps) simp
    ultimately have "2 ^ bitlength (n div 2) \<le> 2 * (n div 2)"
      by (cases "bitlength (n div 2)") simp_all
    then have "2 ^ bitlength (n div 2) \<le> n" by linarith
    then show ?thesis using ne by (subst bitlength.simps) simp
  qed
qed

lemma bitlength_mono: "m \<le> n \<Longrightarrow> bitlength m \<le> bitlength n"
proof (rule ccontr)
  assume le: "m \<le> n" and "\<not> bitlength m \<le> bitlength n"
  then have lt: "bitlength n < bitlength m" by simp
  then have m: "0 < m" by (cases "m = 0") simp_all
  have "n < 2 ^ bitlength n" by (rule bitlength_upper)
  also have "(2::nat) ^ bitlength n \<le> 2 ^ (bitlength m - 1)"
    using lt by (intro power_increasing) simp_all
  also have "\<dots> \<le> m" using m by (rule bitlength_lower)
  finally show False using le by simp
qed

lemma round53_expo: "round53 x = nat (rne (x / 2 ^ expo x)) * 2 ^ expo x"
  by (simp add: round53_def expo_def Let_def)

lemma expo_mono: "x \<le> y \<Longrightarrow> expo x \<le> expo y"
  unfolding expo_def
  by (intro diff_le_mono bitlength_mono nat_mono floor_mono)

lemma rat_floor_nat:
  assumes "0 \<le> (x::rat)" and "n = nat \<lfloor>x\<rfloor>"
  shows "of_nat n \<le> x" and "x < of_nat (Suc n)"
proof -
  have "0 \<le> \<lfloor>x\<rfloor>" using assms(1) by simp
  then have n: "(of_nat n :: rat) = of_int \<lfloor>x\<rfloor>" by (simp add: assms(2))
  show "of_nat n \<le> x" unfolding n by simp
  have "x < of_int \<lfloor>x\<rfloor> + 1" by linarith
  then show "x < of_nat (Suc n)" using n by simp
qed

lemma rat_less_pow_bitlength:
  assumes "0 \<le> (x::rat)"
  shows "x < 2 ^ bitlength (nat \<lfloor>x\<rfloor>)"
proof -
  define n where "n = nat \<lfloor>x\<rfloor>"
  have "n < 2 ^ bitlength n" by (rule bitlength_upper)
  then have "Suc n \<le> 2 ^ bitlength n" by (rule Suc_leI)
  then have "(of_nat (Suc n) :: rat) \<le> of_nat (2 ^ bitlength n)"
    by (rule of_nat_mono)
  then have "(of_nat (Suc n) :: rat) \<le> 2 ^ bitlength n" by simp
  moreover have "x < of_nat (Suc n)" using assms n_def by (rule rat_floor_nat)
  ultimately show ?thesis unfolding n_def by (rule less_le_trans [rotated])
qed

lemma expo_upper:
  assumes "0 \<le> x"
  shows "x < 2 ^ (53 + expo x)"
proof -
  have "bitlength (nat \<lfloor>x\<rfloor>) \<le> 53 + expo x" by (simp add: expo_def)
  then have "(2::rat) ^ bitlength (nat \<lfloor>x\<rfloor>) \<le> 2 ^ (53 + expo x)"
    by (intro power_increasing) simp_all
  then show ?thesis using rat_less_pow_bitlength [OF assms] by (rule less_le_trans [rotated])
qed

lemma expo_lower:
  assumes "0 \<le> x" and "0 < expo x"
  shows "2 ^ (52 + expo x) \<le> x"
proof -
  define n where "n = nat \<lfloor>x\<rfloor>"
  have L: "bitlength n = 53 + expo x" using assms(2) by (simp add: expo_def n_def)
  then have pos: "0 < n" by (cases "n = 0") simp_all
  have "2 ^ (bitlength n - 1) \<le> n"
    using pos by (rule bitlength_lower)
  then have "2 ^ (52 + expo x) \<le> n" by (simp add: L)
  then have "(of_nat (2 ^ (52 + expo x)) :: rat) \<le> of_nat n" by (rule of_nat_mono)
  then have "(2 ^ (52 + expo x) :: rat) \<le> of_nat n" by simp
  moreover have "(of_nat n :: rat) \<le> x" using assms(1) n_def by (rule rat_floor_nat)
  ultimately show ?thesis by (rule order_trans)
qed


lemma mantissa_le:
  assumes "0 \<le> x"
  shows "nat (rne (x / 2 ^ expo x)) \<le> 2 ^ 53"
proof -
  have "x / 2 ^ expo x < 2 ^ 53"
    using expo_upper [OF assms] by (simp add: divide_less_eq power_add)
  then have "x / 2 ^ expo x \<le> of_int (2 ^ 53)" by simp
  then have "rne (x / 2 ^ expo x) \<le> rne (of_int (2 ^ 53))" by (rule rne_mono)
  then have "rne (x / 2 ^ expo x) \<le> 2 ^ 53" by (simp only: rne_of_int)
  then show ?thesis by (simp add: nat_le_iff)
qed

lemma mantissa_ge:
  assumes "0 \<le> x" and "0 < expo x"
  shows "2 ^ 52 \<le> nat (rne (x / 2 ^ expo x))"
proof -
  have "2 ^ 52 \<le> x / 2 ^ expo x"
    using expo_lower [OF assms] by (simp add: le_divide_eq power_add)
  then have "of_int (2 ^ 52) \<le> x / 2 ^ expo x" by simp
  then have "rne (of_int (2 ^ 52)) \<le> rne (x / 2 ^ expo x)" by (rule rne_mono)
  then have "2 ^ 52 \<le> rne (x / 2 ^ expo x)" by (simp only: rne_of_int)
  then show ?thesis by (simp add: le_nat_iff)
qed

lemma round53_le:
  assumes "0 \<le> x"
  shows "round53 x \<le> 2 ^ (53 + expo x)"
  using mult_le_mono1 [OF mantissa_le [OF assms], of "2 ^ expo x"]
  by (simp add: round53_expo power_add)

lemma round53_ge:
  assumes "0 \<le> x" and "0 < expo x"
  shows "2 ^ (52 + expo x) \<le> round53 x"
  using mult_le_mono1 [OF mantissa_ge [OF assms], of "2 ^ expo x"]
  by (simp add: round53_expo power_add)

lemma round53_mono:
  assumes "0 \<le> x" and "x \<le> y"
  shows "round53 x \<le> round53 y"
proof (cases "expo x = expo y")
  case True
  have "x / 2 ^ expo y \<le> y / 2 ^ expo y" using assms(2) by (simp add: divide_right_mono)
  then have "rne (x / 2 ^ expo y) \<le> rne (y / 2 ^ expo y)" by (rule rne_mono)
  then have "nat (rne (x / 2 ^ expo y)) \<le> nat (rne (y / 2 ^ expo y))" by (rule nat_mono)
  then show ?thesis by (simp add: round53_expo True)
next
  case False
  then have lt: "expo x < expo y" using expo_mono [OF assms(2)] by simp
  have y: "0 \<le> y" using assms by simp
  have "round53 x \<le> 2 ^ (53 + expo x)" using assms(1) by (rule round53_le)
  also have "(2::nat) ^ (53 + expo x) \<le> 2 ^ (52 + expo y)"
    using lt by (intro power_increasing) simp_all
  also have "\<dots> \<le> round53 y" using y lt by (intro round53_ge) simp_all
  finally show ?thesis .
qed

lemma round53_fix:
  assumes "a \<le> 2 ^ 53"
  shows "round53 (of_nat (a * 2 ^ j)) = a * 2 ^ j"
proof -
  define r where "r = a * 2 ^ j"
  define k where "k = expo (of_nat r)"
  have kdef: "k = bitlength r - 53" by (simp add: k_def expo_def)
  have le: "r \<le> 2 ^ (53 + j)"
    using mult_le_mono1 [OF assms, of "2 ^ j"] by (simp add: r_def power_add)
  have dvd: "2 ^ k dvd r"
  proof (cases "k \<le> j")
    case True
    then have "(2::nat) ^ k dvd 2 ^ j" by (rule le_imp_power_dvd)
    then show ?thesis by (simp add: r_def)
  next
    case False
    then have kj: "j < k" by simp
    then have bl: "bitlength r = 53 + k" using kdef by simp
    then have pos: "0 < r" by (cases "r = 0") simp_all
    have "2 ^ (bitlength r - 1) \<le> r" using pos by (rule bitlength_lower)
    then have ge: "2 ^ (52 + k) \<le> r" by (simp add: bl)
    have "(2::nat) ^ (53 + j) \<le> 2 ^ (52 + k)" using kj by (intro power_increasing) simp_all
    with le have "r \<le> 2 ^ (52 + k)" by (rule order_trans)
    then have eq: "r = 2 ^ (52 + k)" using ge by (rule antisym)
    have "(2::nat) ^ k dvd 2 ^ (52 + k)" by (intro le_imp_power_dvd) simp
    then show ?thesis by (simp add: eq)
  qed
  then obtain q where q: "r = 2 ^ k * q" by (rule dvdE)
  have "(of_nat r :: rat) / 2 ^ k = of_int (int q)" by (simp add: q)
  then have "rne (of_nat r / 2 ^ k) = int q" by (simp only: rne_of_int)
  then have "round53 (of_nat r) = q * 2 ^ k" by (simp add: round53_expo k_def)
  then show ?thesis unfolding r_def [symmetric] by (simp add: q)
qed

lemma round53_idem:
  assumes "0 \<le> x"
  shows "round53 (of_nat (round53 x)) = round53 x"
  unfolding round53_expo [of x] by (rule round53_fix) (rule mantissa_le [OF assms])

lemma round53_nat_pos: "0 < n \<Longrightarrow> 0 < round53 (of_nat n)"
proof -
  assume "0 < n"
  then have "(1::rat) \<le> of_nat n" by simp
  then have "round53 1 \<le> round53 (of_nat n)" by (intro round53_mono) simp_all
  moreover have "round53 (of_nat (1 * 2 ^ 0)) = 1 * 2 ^ 0" by (rule round53_fix) simp
  ultimately show ?thesis by simp
qed


lemma grid_pos: "0 < grid"
  by (simp add: grid_def)

lemma round53_0 [simp]: "round53 0 = 0"
  using round53_fix [of 0 0] by simp

lemma rnd64_0 [simp]: "rnd64 0 = 0"
  by (simp add: rnd64_def)

lemma rnd64_nonneg: "0 \<le> x \<Longrightarrow> rnd64 x = of_nat (round53 (x * grid)) / grid"
  by (simp add: rnd64_def not_less [symmetric])

lemma rnd64_neg: "x < 0 \<Longrightarrow> rnd64 x = - rnd64 (- x)"
  by (simp add: rnd64_def)

lemma rnd64_ge_0: "0 \<le> x \<Longrightarrow> 0 \<le> rnd64 x"
  using grid_pos by (simp add: rnd64_nonneg)

lemma rnd64_le_0: "x < 0 \<Longrightarrow> rnd64 x \<le> 0"
  using rnd64_ge_0 [of "- x"] by (simp add: rnd64_neg)

lemma rnd64_mono_nonneg:
  assumes "0 \<le> x" and "x \<le> y"
  shows "rnd64 x \<le> rnd64 y"
proof -
  have y: "0 \<le> y" using assms by simp
  have "0 \<le> x * grid" and "x * grid \<le> y * grid"
    using assms grid_pos by (simp_all add: mult_right_mono)
  then have "round53 (x * grid) \<le> round53 (y * grid)" by (rule round53_mono)
  then have "(of_nat (round53 (x * grid)) :: rat) \<le> of_nat (round53 (y * grid))"
    by (rule of_nat_mono)
  then show ?thesis
    using grid_pos by (simp add: rnd64_nonneg assms(1) y divide_right_mono)
qed

lemma rnd64_mono:
  assumes "x \<le> y"
  shows "rnd64 x \<le> rnd64 y"
proof (cases "0 \<le> x")
  case True
  then show ?thesis using assms by (rule rnd64_mono_nonneg)
next
  case x: False
  show ?thesis
  proof (cases "0 \<le> y")
    case True
    have "rnd64 x \<le> 0" using x by (intro rnd64_le_0) simp
    also have "0 \<le> rnd64 y" using True by (rule rnd64_ge_0)
    finally show ?thesis .
  next
    case False
    then have "rnd64 (- y) \<le> rnd64 (- x)" using assms by (intro rnd64_mono_nonneg) simp_all
    then show ?thesis using x False by (simp add: rnd64_neg)
  qed
qed

lemma rnd64_idem_nonneg:
  assumes "0 \<le> x"
  shows "rnd64 (rnd64 x) = rnd64 x"
proof -
  have "0 \<le> x * grid" using assms grid_pos by simp
  then have "round53 (of_nat (round53 (x * grid))) = round53 (x * grid)" by (rule round53_idem)
  then show ?thesis
    using grid_pos rnd64_ge_0 [OF assms]
    by (simp add: rnd64_nonneg assms)
qed

lemma rnd64_idem: "rnd64 (rnd64 x) = rnd64 x"
proof (cases "0 \<le> x")
  case True
  then show ?thesis by (rule rnd64_idem_nonneg)
next
  case False
  then have x: "x < 0" by simp
  have i: "rnd64 (rnd64 (- x)) = rnd64 (- x)" using x by (intro rnd64_idem_nonneg) simp
  show ?thesis
  proof (cases "rnd64 (- x) = 0")
    case True
    then show ?thesis using x by (simp add: rnd64_neg)
  next
    case False
    then have "0 < rnd64 (- x)" using rnd64_ge_0 [of "- x"] x by simp
    then show ?thesis using x i by (simp add: rnd64_neg)
  qed
qed

lemma representable_on_grid:
  assumes "rnd64 a = a"
  shows "\<exists>n::int. a * grid = of_int n"
proof (cases "0 \<le> a")
  case True
  have "a * grid = of_int (int (round53 (a * grid)))"
    using grid_pos assms rnd64_nonneg [OF True] by (simp add: field_simps)
  then show ?thesis ..
next
  case False
  then have "a = - (of_nat (round53 (- a * grid)) / grid)"
    using assms by (simp add: rnd64_def)
  then have "a * grid = of_int (- int (round53 (- a * grid)))"
    using grid_pos by (simp add: field_simps)
  then show ?thesis ..
qed

lemma rnd64_sub_pos:
  assumes a: "rnd64 a = a" and b: "rnd64 b = b" and lt: "b < a"
  shows "0 < rnd64 (a - b)"
proof -
  obtain na :: int where na: "a * grid = of_int na" using representable_on_grid [OF a] ..
  obtain nb :: int where nb: "b * grid = of_int nb" using representable_on_grid [OF b] ..
  have "b * grid < a * grid" using lt grid_pos by simp
  then have "nb < na" by (simp add: na nb)
  then have pos: "0 < nat (na - nb)" by simp
  have "(a - b) * grid = a * grid - b * grid" by (rule left_diff_distrib)
  also have "\<dots> = of_int (na - nb)" by (simp add: na nb)
  also have "\<dots> = of_nat (nat (na - nb))" using \<open>nb < na\<close> by simp
  finally have "(a - b) * grid = of_nat (nat (na - nb))" .
  then have "0 < round53 ((a - b) * grid)" using round53_nat_pos [OF pos] by simp
  then show ?thesis using lt grid_pos by (simp add: rnd64_nonneg)
qed

lemma rnd64_add_ge:
  assumes "rnd64 v = v" and "0 < d"
  shows "v \<le> rnd64 (v + d)"
proof -
  have "rnd64 v \<le> rnd64 (v + d)" using assms(2) by (intro rnd64_mono) simp
  then show ?thesis by (simp add: assms(1))
qed

subsection \<open>Two known roundings\<close>

text \<open>
  The model agrees with \<open>float64\<close> on two values that are well known: the \<open>float64\<close>
  nearest to one tenth is \<open>3602879701896397 / 2^55\<close> (the bits \<open>0x3FB999999999999A\<close>), and
  \<open>2^53 + 1\<close>, half way between two neighbours, is rounded to the even one, \<open>2^53\<close>.
\<close>

lemma bitlength_eqI:
  assumes "2 ^ L \<le> n" and "n < 2 ^ Suc L"
  shows "bitlength n = Suc L"
proof (rule antisym)
  show "bitlength n \<le> Suc L"
  proof (rule ccontr)
    assume "\<not> bitlength n \<le> Suc L"
    then have "Suc L \<le> bitlength n - 1" by simp
    then have "(2::nat) ^ Suc L \<le> 2 ^ (bitlength n - 1)" by (intro power_increasing) simp_all
    also have "\<dots> \<le> n" using assms(1) by (intro bitlength_lower) (cases "n = 0", simp_all)
    finally show False using assms(2) by simp
  qed
  show "Suc L \<le> bitlength n"
  proof (rule ccontr)
    assume "\<not> Suc L \<le> bitlength n"
    then have "bitlength n \<le> L" by simp
    then have "(2::nat) ^ bitlength n \<le> 2 ^ L" by (intro power_increasing) simp_all
    with bitlength_upper [of n] have "n < 2 ^ L" by (rule less_le_trans)
    then show False using assms(1) by simp
  qed
qed

lemma expo_eqI:
  assumes lo: "2 ^ (52 + k) \<le> x" and hi: "x < 2 ^ (53 + k)"
  shows "expo x = k"
proof -
  define n where "n = nat \<lfloor>x\<rfloor>"
  have x0: "0 \<le> x" using lo by (rule order_trans [rotated]) simp
  have "(of_nat (2 ^ (52 + k)) :: rat) \<le> x" using lo by simp
  then have "int (2 ^ (52 + k)) \<le> \<lfloor>x\<rfloor>" by (simp add: le_floor_iff)
  then have n1: "2 ^ (52 + k) \<le> n" by (simp add: n_def le_nat_iff)
  have "(of_nat n :: rat) \<le> x" using x0 n_def by (rule rat_floor_nat)
  then have "(of_nat n :: rat) < 2 ^ (53 + k)" using hi by (rule le_less_trans)
  then have "(of_nat n :: rat) < of_nat (2 ^ (53 + k))" by simp
  then have "n < 2 ^ (53 + k)" by (simp only: of_nat_less_iff)
  then have n2: "n < 2 ^ Suc (52 + k)" by simp
  have "bitlength n = Suc (52 + k)" using n1 n2 by (rule bitlength_eqI)
  then show ?thesis by (simp add: expo_def n_def)
qed

lemma round53_eqI:
  assumes "2 ^ (52 + k) \<le> x" and "x < 2 ^ (53 + k)"
  shows "round53 x = nat (rne (x / 2 ^ k)) * 2 ^ k"
  using expo_eqI [OF assms] by (simp add: round53_expo)

lemma rne_up:
  assumes "of_int z + 1 / 2 < x" and "x < of_int z + 1"
  shows "rne x = z + 1"
proof -
  have "\<lfloor>x\<rfloor> = z" using assms by (intro floor_unique) simp_all
  then show ?thesis using assms by (simp add: rne_def Let_def)
qed

lemma rne_down:
  assumes "of_int z \<le> x" and "x < of_int z + 1 / 2"
  shows "rne x = z"
proof -
  have "\<lfloor>x\<rfloor> = z" using assms by (intro floor_unique) simp_all
  then show ?thesis using assms by (simp add: rne_def Let_def)
qed

lemma rne_tenth: "rne (2 ^ 56 / 10) = 7205759403792794"
  using rne_up [of 7205759403792793 "2 ^ 56 / 10"] by simp

lemma rnd64_tenth: "rnd64 (1 / 10) = 3602879701896397 / 2 ^ 55"
proof -
  have "round53 (1 / 10 * grid) = nat (rne (1 / 10 * grid / 2 ^ 1018)) * 2 ^ 1018"
    by (rule round53_eqI) (simp_all add: grid_def)
  also have "(1 / 10 * grid / 2 ^ 1018 :: rat) = 2 ^ 56 / 10" by (simp add: grid_def)
  finally have "round53 (1 / 10 * grid) = 7205759403792794 * 2 ^ 1018"
    by (simp only: rne_tenth) simp
  then show ?thesis by (simp add: rnd64_def grid_def)
qed


lemma rne_tie:
  assumes "x = of_int z + 1 / 2"
  shows "rne x = (if even z then z else z + 1)"
proof -
  have "\<lfloor>x\<rfloor> = z" using assms by (intro floor_unique) simp_all
  then show ?thesis using assms by (simp add: rne_def Let_def)
qed

lemma rnd64_tie: "rnd64 (2 ^ 53 + 1) = 2 ^ 53"
proof -
  have "round53 ((2 ^ 53 + 1) * grid) = nat (rne ((2 ^ 53 + 1) * grid / 2 ^ 1075)) * 2 ^ 1075"
    by (rule round53_eqI) (simp_all add: grid_def)
  also have "((2 ^ 53 + 1) * grid / 2 ^ 1075 :: rat) = of_int (2 ^ 52) + 1 / 2"
    by (simp add: grid_def)
  also have "rne (of_int (2 ^ 52) + 1 / 2) = 2 ^ 52"
    using rne_tie [OF refl, of "2 ^ 52"] by simp
  finally have "round53 ((2 ^ 53 + 1) * grid) = 2 ^ 52 * 2 ^ 1075" by simp
  then show ?thesis by (simp add: rnd64_def grid_def)
qed

subsection \<open>Numbers that are a float64, and bounds\<close>

lemma rnd64_fix_nat:
  assumes "a \<le> 2 ^ 53"
  shows "rnd64 (of_nat (a * 2 ^ j)) = of_nat (a * 2 ^ j)"
proof -
  have e: "(of_nat (a * 2 ^ j) :: rat) * grid = of_nat (a * 2 ^ (j + 1074))"
    by (simp add: grid_def power_add)
  have "round53 (of_nat (a * 2 ^ j) * grid) = a * 2 ^ (j + 1074)"
    unfolding e using assms by (rule round53_fix)
  moreover have "(0::rat) \<le> of_nat (a * 2 ^ j)" by (rule of_nat_0_le_iff)
  ultimately have "rnd64 (of_nat (a * 2 ^ j)) = of_nat (a * 2 ^ (j + 1074)) / grid"
    by (simp only: rnd64_nonneg)
  also have "\<dots> = of_nat (a * 2 ^ j)"
    unfolding e [symmetric] using grid_pos by simp
  finally show ?thesis .
qed

lemma rnd64_pow2: "rnd64 (2 ^ j) = 2 ^ j"
  using rnd64_fix_nat [of 1 j] by simp

lemma rnd64_1: "rnd64 1 = 1"
  using rnd64_pow2 [of 0] by simp

lemma rnd64_100: "rnd64 100 = 100"
  using rnd64_fix_nat [of 100 0] by simp

lemma rnd64_le_pow2: "x \<le> 2 ^ j \<Longrightarrow> rnd64 x \<le> 2 ^ j"
  using rnd64_mono [of x "2 ^ j"] by (simp add: rnd64_pow2)


lemma percentage_bounded_rat:
  fixes c t :: nat
  assumes c: "c < 2 ^ 64" and t: "0 < t"
  shows "1 \<le> rnd64 (of_nat t)"
    and "0 \<le> rnd64 (rnd64 (rnd64 (of_nat c) / rnd64 (of_nat t)) * rnd64 100)"
    and "rnd64 (rnd64 (rnd64 (of_nat c) / rnd64 (of_nat t)) * rnd64 100) \<le> 2 ^ 71"
proof -
  define A where "A = rnd64 (of_nat c)"
  define B where "B = rnd64 (of_nat t)"
  define Q where "Q = rnd64 (A / B)"
  have "(of_nat c :: rat) \<le> of_nat (2 ^ 64)" using c by (intro of_nat_mono) simp
  then have "(of_nat c :: rat) \<le> 2 ^ 64" by simp
  then have A2: "A \<le> 2 ^ 64" unfolding A_def by (rule rnd64_le_pow2)
  have A1: "0 \<le> A" unfolding A_def by (rule rnd64_ge_0) simp
  have "(1::rat) \<le> of_nat t" using t by simp
  then have "rnd64 1 \<le> B" unfolding B_def by (rule rnd64_mono)
  then have B: "1 \<le> B" by (simp only: rnd64_1)
  have "A / B \<le> A / 1" using A1 B by (intro divide_left_mono) simp_all
  then have "A / B \<le> 2 ^ 64" using A2 by simp
  then have Q2: "Q \<le> 2 ^ 64" unfolding Q_def by (rule rnd64_le_pow2)
  have "0 \<le> A / B" using A1 B by simp
  then have Q1: "0 \<le> Q" unfolding Q_def by (rule rnd64_ge_0)
  have "Q * 100 \<le> 2 ^ 64 * 100" using Q2 by simp
  also have "\<dots> \<le> (2 ^ 71 :: rat)" by simp
  finally have P2: "rnd64 (Q * 100) \<le> 2 ^ 71" by (rule rnd64_le_pow2)
  have P1: "0 \<le> rnd64 (Q * 100)" using Q1 by (intro rnd64_ge_0) simp
  show "1 \<le> rnd64 (of_nat t)" using B unfolding B_def .
  show "0 \<le> rnd64 (rnd64 (rnd64 (of_nat c) / rnd64 (of_nat t)) * rnd64 100)"
    using P1 unfolding Q_def A_def B_def rnd64_100 .
  show "rnd64 (rnd64 (rnd64 (of_nat c) / rnd64 (of_nat t)) * rnd64 100) \<le> 2 ^ 71"
    using P2 unfolding Q_def A_def B_def rnd64_100 .
qed

lemma rnd64_fix_grid:
  assumes "a \<le> 2 ^ 53"
  shows "rnd64 (of_nat (a * 2 ^ j) / grid) = of_nat (a * 2 ^ j) / grid"
proof -
  have "round53 (of_nat (a * 2 ^ j)) = a * 2 ^ j" using assms by (rule round53_fix)
  moreover have "(0::rat) \<le> of_nat (a * 2 ^ j) / grid" using grid_pos by simp
  ultimately show ?thesis using grid_pos by (simp add: rnd64_nonneg)
qed

lemma rnd64_less_imp_less:
  assumes "rnd64 x < c" and "rnd64 c = c"
  shows "x < c"
proof (rule ccontr)
  assume "\<not> x < c"
  then have "rnd64 c \<le> rnd64 x" by (intro rnd64_mono) simp
  then show False using assms by simp
qed

lemma rnd64_fix_dyadic:
  assumes "a \<le> 2 ^ 53" and "j \<le> 1074"
  shows "rnd64 (of_nat a / 2 ^ j) = of_nat a / 2 ^ j"
proof -
  have "(2::rat) ^ 1074 = 2 ^ (1074 - j + j)"
    using assms(2) by simp
  then have g: "grid = 2 ^ (1074 - j) * 2 ^ j"
    by (simp only: grid_def power_add)
  have e: "(of_nat a :: rat) / 2 ^ j = of_nat (a * 2 ^ (1074 - j)) / grid"
    unfolding g by simp
  show ?thesis unfolding e using assms(1) by (rule rnd64_fix_grid)
qed

lemma rnd64_numeral:
  "(numeral k :: nat) \<le> 2 ^ 53 \<Longrightarrow> rnd64 (numeral k) = numeral k"
  using rnd64_fix_nat [of "numeral k" 0] by simp

lemma rnd64_numeral_half:
  "(numeral k :: nat) \<le> 2 ^ 53 \<Longrightarrow> rnd64 (numeral k / 2) = numeral k / 2"
  using rnd64_fix_dyadic [of "numeral k" 1] by simp

lemma rnd64_fractions:
  "rnd64 (1 / 2) = 1 / 2" "rnd64 (1 / 4) = 1 / 4" "rnd64 (1 / 8) = 1 / 8"
  using rnd64_fix_dyadic [of 1 1] rnd64_fix_dyadic [of 1 2] rnd64_fix_dyadic [of 1 3]
  by simp_all

text \<open>The numbers \<open>2^57\<close>, \<open>2^58\<close>, \<open>25 * 2^59\<close>, \<open>25 * 2^60\<close> and \<open>9 * 2^60\<close>.\<close>

lemma rnd64_big:
  "rnd64 144115188075855872 = 144115188075855872"
  "rnd64 288230376151711744 = 288230376151711744"
  "rnd64 14411518807585587200 = 14411518807585587200"
  "rnd64 28823037615171174400 = 28823037615171174400"
  "rnd64 10376293541461622784 = 10376293541461622784"
  using rnd64_fix_nat [of 1 57] rnd64_fix_nat [of 1 58] rnd64_fix_nat [of 25 59]
    rnd64_fix_nat [of 25 60] rnd64_fix_nat [of 9 60]
  by simp_all

lemmas rnd64_values = rnd64_numeral rnd64_numeral_half rnd64_fractions rnd64_1

lemma percentage_le_100_rat:
  fixes c t :: nat
  assumes ct: "c \<le> t" and t: "0 < t"
  shows "rnd64 (rnd64 (rnd64 (of_nat c) / rnd64 (of_nat t)) * rnd64 100) \<le> 100"
proof -
  define A where "A = rnd64 (of_nat c)"
  define B where "B = rnd64 (of_nat t)"
  define Q where "Q = rnd64 (A / B)"
  have "(of_nat c :: rat) \<le> of_nat t" using ct by (rule of_nat_mono)
  then have AB: "A \<le> B" unfolding A_def B_def by (rule rnd64_mono)
  have "(1::rat) \<le> of_nat t" using t by simp
  then have "rnd64 1 \<le> B" unfolding B_def by (rule rnd64_mono)
  then have B: "1 \<le> B" by (simp only: rnd64_1)
  have "A / B \<le> 1" using AB B by simp
  then have "rnd64 (A / B) \<le> rnd64 1" by (rule rnd64_mono)
  then have Q: "Q \<le> 1" unfolding Q_def by (simp only: rnd64_1)
  then have "Q * 100 \<le> 100" by simp
  then have "rnd64 (Q * 100) \<le> rnd64 100" by (rule rnd64_mono)
  then have "rnd64 (Q * 100) \<le> 100" by (simp only: rnd64_100)
  then show ?thesis unfolding Q_def A_def B_def rnd64_100 .
qed

subsection \<open>The values of the type float64\<close>

lemma Rep_float64_of_rat [simp]: "Rep_float64 (float64_of_rat x) = rnd64 x"
  by (simp add: float64_of_rat_def Abs_float64_inverse rnd64_idem)

lemma Rep_float64_0 [simp]: "Rep_float64 0 = 0"
  by (simp add: zero_float64_def Abs_float64_inverse)

lemma Rep_float64_fix: "rnd64 (Rep_float64 a) = Rep_float64 a"
  using Rep_float64 [of a] by simp

lemma float64_of_rat_eq_iff: "float64_of_rat x = float64_of_rat y \<longleftrightarrow> rnd64 x = rnd64 y"
  by (simp add: float64_of_rat_def Abs_float64_inject rnd64_idem)

lemma float64_of_rat_less_iff: "float64_of_rat x < float64_of_rat y \<longleftrightarrow> rnd64 x < rnd64 y"
  by (simp add: less_float64_def)

lemma float64_of_rat_less_0_iff: "float64_of_rat x < 0 \<longleftrightarrow> rnd64 x < 0"
  by (simp add: less_float64_def)

lemma zero_less_float64_of_rat_iff: "0 < float64_of_rat x \<longleftrightarrow> 0 < rnd64 x"
  by (simp add: less_float64_def)

section \<open>The progress reporter\<close>

lemma updateProgress_idle:
  "total r = 0 \<Longrightarrow> updateProgress ops ownerUID r m = Inr m"
  by (simp add: updateProgress_def)

lemma timedUpdateProgress_idle:
  "total r = 0 \<Longrightarrow> timedUpdateProgress ops ownerUID r cs m = Inr m"
  by (induction cs arbitrary: m) (simp_all add: updateProgress_idle)

lemma timedUpdateProgress_append:
  "timedUpdateProgress ops ownerUID r (cs1 @ cs2) m =
     (case timedUpdateProgress ops ownerUID r cs1 m of
        Inl p \<Rightarrow> Inl p
      | Inr m1 \<Rightarrow> timedUpdateProgress ops ownerUID r cs2 m1)"
  by (induction cs1 arbitrary: m) (simp_all split: sum.splits)

subsection \<open>The conversions and the counter in float64\<close>

lemma Rep_fromUint64: "Rep_float64 (fromUint64 (ieee_ops oor) w) = rnd64 (of_nat (unat w))"
  by (simp add: ieee_ops_def)

lemma fromUint64_nonneg: "0 \<le> Rep_float64 (fromUint64 (ieee_ops oor) w)"
  unfolding Rep_fromUint64 by (rule rnd64_ge_0) (rule of_nat_0_le_iff)

lemma fromUint64_mono:
  assumes "unat v \<le> unat w"
  shows "Rep_float64 (fromUint64 (ieee_ops oor) v) \<le> Rep_float64 (fromUint64 (ieee_ops oor) w)"
  unfolding Rep_fromUint64 using assms by (intro rnd64_mono of_nat_mono)

lemma fromUint64_less_pow2:
  assumes "Rep_float64 (fromUint64 (ieee_ops oor) w) < 2 ^ j"
  shows "unat w < 2 ^ j"
proof -
  have "(of_nat (unat w) :: rat) < 2 ^ j"
    using assms unfolding Rep_fromUint64 by (rule rnd64_less_imp_less) (rule rnd64_pow2)
  then have "(of_nat (unat w) :: rat) < of_nat (2 ^ j)" by simp
  then show ?thesis by (simp only: of_nat_less_iff)
qed

lemma toUint64_in_range:
  assumes "0 \<le> Rep_float64 d" and "Rep_float64 d \<le> 2 ^ 63"
  shows "unat (toUint64 (ieee_ops oor) d) = nat \<lfloor>Rep_float64 d\<rfloor>"
    and "nat \<lfloor>Rep_float64 d\<rfloor> \<le> 2 ^ 63"
proof -
  define n where "n = nat \<lfloor>Rep_float64 d\<rfloor>"
  have "(of_nat n :: rat) \<le> Rep_float64 d" using assms(1) n_def by (rule rat_floor_nat)
  then have "(of_nat n :: rat) \<le> 2 ^ 63" using assms(2) by (rule order_trans)
  then have "(of_nat n :: rat) \<le> of_nat (2 ^ 63)" by simp
  then have n: "n \<le> 2 ^ 63" by (simp only: of_nat_le_iff)
  then have "n < 2 ^ 64" by simp
  then have u: "unat (of_nat n :: 64 word) = n" by (simp add: unat_of_nat)
  have "Rep_float64 d < 2 ^ 64" using assms(2) by simp
  then have "toUint64 (ieee_ops oor) d = of_nat n"
    using assms(1) by (simp add: ieee_ops_def n_def)
  then show "unat (toUint64 (ieee_ops oor) d) = nat \<lfloor>Rep_float64 d\<rfloor>"
    using u by (simp add: n_def)
  show "nat \<lfloor>Rep_float64 d\<rfloor> \<le> 2 ^ 63" using n by (simp add: n_def)
qed

lemma Rep_Counter_Write:
  "Rep_float64 (Counter_Write (ieee_ops oor) c) =
     rnd64 (Rep_float64 (valBits c) + Rep_float64 (fromUint64 (ieee_ops oor) (valInt c)))"
  by (simp add: Counter_Write_def ieee_ops_def)

lemma Counter_Add_positive:
  assumes "0 < Rep_float64 d"
  shows "\<exists>c'. Counter_Add (ieee_ops oor) d c = Inr c'"
proof -
  have "\<not> d < 0" using assms by (simp add: less_float64_def)
  then show ?thesis by (simp add: Counter_Add_def Let_def)
qed

text \<open>
  An \<open>Add\<close> of a positive value of at most \<open>2^63\<close> to a counter whose \<open>valInt\<close> is below
  \<open>2^63\<close> does not wrap around, and does not lower the published value.
\<close>

lemma Counter_Add_monotone:
  assumes fv: "0 \<le> Rep_float64 (valBits c)"
    and d0: "0 < Rep_float64 d" and dle: "Rep_float64 d \<le> 2 ^ 63"
    and iv: "unat (valInt c) < 2 ^ 63"
    and add: "Counter_Add (ieee_ops oor) d c = Inr c'"
  shows "0 \<le> Rep_float64 (valBits c')"
    and "Rep_float64 (Counter_Write (ieee_ops oor) c) \<le> Rep_float64 (Counter_Write (ieee_ops oor) c')"
proof -
  have nneg: "\<not> d < 0" using d0 by (simp add: less_float64_def)
  define ival where "ival = toUint64 (ieee_ops oor) d"
  have d0': "0 \<le> Rep_float64 d" using d0 by simp
  have u: "unat ival = nat \<lfloor>Rep_float64 d\<rfloor>" and n: "nat \<lfloor>Rep_float64 d\<rfloor> \<le> 2 ^ 63"
    unfolding ival_def using d0' dle by (rule toUint64_in_range)+
  have "0 \<le> Rep_float64 (valBits c')
      \<and> Rep_float64 (Counter_Write (ieee_ops oor) c) \<le> Rep_float64 (Counter_Write (ieee_ops oor) c')"
  proof (cases "fromUint64 (ieee_ops oor) ival = d")
    case True
    then have c': "c' = c\<lparr>valInt := valInt c + ival\<rparr>"
      using add nneg by (simp add: Counter_Add_def Let_def ival_def)
    have "unat (valInt c) + unat ival < 2 ^ 64" using iv u n by simp
    then have "unat (valInt c + ival) = unat (valInt c) + unat ival"
      by (simp add: unat_add_lem [THEN iffD1])
    then have "unat (valInt c) \<le> unat (valInt c + ival)" by simp
    then have m: "Rep_float64 (fromUint64 (ieee_ops oor) (valInt c))
                  \<le> Rep_float64 (fromUint64 (ieee_ops oor) (valInt c + ival))"
      by (rule fromUint64_mono)
    have "0 \<le> Rep_float64 (valBits c')" using fv by (simp add: c')
    moreover have "Rep_float64 (Counter_Write (ieee_ops oor) c) \<le> Rep_float64 (Counter_Write (ieee_ops oor) c')"
      unfolding Rep_Counter_Write using m by (intro rnd64_mono) (simp add: c')
    ultimately show ?thesis ..
  next
    case False
    then have c': "c' = c\<lparr>valBits := fadd (ieee_ops oor) (valBits c) d\<rparr>"
      using add nneg by (simp add: Counter_Add_def Let_def ival_def)
    have r: "Rep_float64 (valBits c') = rnd64 (Rep_float64 (valBits c) + Rep_float64 d)"
      by (simp add: c' ieee_ops_def)
    have ge: "Rep_float64 (valBits c) \<le> Rep_float64 (valBits c')"
      unfolding r using d0 by (intro rnd64_add_ge Rep_float64_fix)
    have "0 \<le> Rep_float64 (valBits c')" using fv ge by simp
    moreover have "valInt c' = valInt c" by (simp add: c')
    then have "Rep_float64 (Counter_Write (ieee_ops oor) c) \<le> Rep_float64 (Counter_Write (ieee_ops oor) c')"
      unfolding Rep_Counter_Write using ge by (intro rnd64_mono) simp
    ultimately show ?thesis ..
  qed
  then show "0 \<le> Rep_float64 (valBits c')"
    and "Rep_float64 (Counter_Write (ieee_ops oor) c) \<le> Rep_float64 (Counter_Write (ieee_ops oor) c')"
    by simp_all
qed

lemma Counter_Add_valBits:
  assumes "Counter_Add (ieee_ops oor) d c = Inr c'"
  shows "valBits c' = valBits c
       \<or> Rep_float64 (valBits c') = rnd64 (Rep_float64 (valBits c) + Rep_float64 d)"
  using assms by (auto simp: Counter_Add_def Let_def ieee_ops_def split: if_splits)

subsection \<open>One tick\<close>

lemma fsub_positive:
  assumes "v < c"
  shows "0 < fsub (ieee_ops oor) c v" and "0 < Rep_float64 (fsub (ieee_ops oor) c v)"
proof -
  have "Rep_float64 v < Rep_float64 c" using assms by (simp add: less_float64_def)
  then have "0 < rnd64 (Rep_float64 c - Rep_float64 v)"
    by (intro rnd64_sub_pos Rep_float64_fix)
  then show "0 < Rep_float64 (fsub (ieee_ops oor) c v)" by (simp add: ieee_ops_def)
  then show "0 < fsub (ieee_ops oor) c v" by (simp add: less_float64_def)
qed

lemma updateProgress_cases:
  "\<exists>m'. updateProgress (ieee_ops oor) ownerUID r m = Inr m'
     \<and> (let cur = percentage (ieee_ops oor) (Current (CountingReader r)) (total r);
             last = published (ieee_ops oor) ownerUID m
         in if 0 < total r \<and> last < cur
            then tick_log m' = tick_log m
                   @ [Divide (Current (CountingReader r)) (total r), WriteMetric ownerUID last,
                      AddMetric ownerUID (fsub (ieee_ops oor) cur last), Infoln cur]
               \<and> 0 < fsub (ieee_ops oor) cur last
               \<and> Counter_Add (ieee_ops oor) (fsub (ieee_ops oor) cur last) (clone_progress m ownerUID)
                   = Inr (clone_progress m' ownerUID)
               \<and> clone_progress m' = (clone_progress m)(ownerUID := clone_progress m' ownerUID)
            else clone_progress m' = clone_progress m)"
proof -
  define cur where "cur = percentage (ieee_ops oor) (Current (CountingReader r)) (total r)"
  define last where "last = published (ieee_ops oor) ownerUID m"
  show ?thesis
  proof (cases "0 < total r \<and> last < cur")
    case False
    then show ?thesis
      unfolding Let_def cur_def [symmetric] last_def [symmetric]
      by (auto simp: updateProgress_def Let_def cur_def last_def percentage_def published_def)
  next
    case True
    then have lt: "last < cur" by simp
    obtain c' where c': "Counter_Add (ieee_ops oor) (fsub (ieee_ops oor) cur last)
                           (clone_progress m ownerUID) = Inr c'"
      using Counter_Add_positive [OF fsub_positive(2) [OF lt]] by blast
    show ?thesis
      unfolding Let_def cur_def [symmetric] last_def [symmetric]
      using True c' fsub_positive(1) [OF lt, of oor]
      by (simp add: updateProgress_def Let_def cur_def last_def percentage_def published_def)
  qed
qed

lemma tick_monotone:
  assumes inv: "0 \<le> Rep_float64 (valBits (clone_progress m ownerUID))"
    and bound: "Rep_float64 (percentage (ieee_ops oor) (Current (CountingReader r)) (total r))
                  \<le> 2 ^ 63"
    and step: "updateProgress (ieee_ops oor) ownerUID r m = Inr m'"
  shows "0 \<le> Rep_float64 (valBits (clone_progress m' ownerUID))"
    and "published (ieee_ops oor) ownerUID m \<le> published (ieee_ops oor) ownerUID m'"
proof -
  define cur where "cur = percentage (ieee_ops oor) (Current (CountingReader r)) (total r)"
  define last where "last = published (ieee_ops oor) ownerUID m"
  define c where "c = clone_progress m ownerUID"
  from updateProgress_cases [of oor ownerUID r m] step
  have cases: "if 0 < total r \<and> last < cur
     then Counter_Add (ieee_ops oor) (fsub (ieee_ops oor) cur last) c = Inr (clone_progress m' ownerUID)
     else clone_progress m' = clone_progress m"
    by (auto simp: Let_def cur_def last_def c_def)
  have "0 \<le> Rep_float64 (valBits (clone_progress m' ownerUID))
      \<and> published (ieee_ops oor) ownerUID m \<le> published (ieee_ops oor) ownerUID m'"
  proof (cases "0 < total r \<and> last < cur")
    case False
    then show ?thesis using cases inv by (simp add: published_def)
  next
    case True
    then have lt: "last < cur" by simp
    have add: "Counter_Add (ieee_ops oor) (fsub (ieee_ops oor) cur last) c
                 = Inr (clone_progress m' ownerUID)"
      using cases True by simp
    have fv: "0 \<le> Rep_float64 (valBits c)" using inv by (simp add: c_def)
    have F: "0 \<le> Rep_float64 (fromUint64 (ieee_ops oor) (valInt c))" by (rule fromUint64_nonneg)
    have last_eq: "Rep_float64 last
                     = rnd64 (Rep_float64 (valBits c) + Rep_float64 (fromUint64 (ieee_ops oor) (valInt c)))"
      by (simp add: last_def published_def c_def Rep_Counter_Write)
    have last0: "0 \<le> Rep_float64 last" unfolding last_eq using fv F by (intro rnd64_ge_0) simp
    have cur63: "Rep_float64 cur \<le> 2 ^ 63" using bound by (simp add: cur_def)
    have d0: "0 < Rep_float64 (fsub (ieee_ops oor) cur last)" using lt by (rule fsub_positive)
    have "Rep_float64 cur - Rep_float64 last \<le> 2 ^ 63" using cur63 last0 by simp
    then have "rnd64 (Rep_float64 cur - Rep_float64 last) \<le> 2 ^ 63" by (rule rnd64_le_pow2)
    then have dle: "Rep_float64 (fsub (ieee_ops oor) cur last) \<le> 2 ^ 63" by (simp add: ieee_ops_def)
    have "rnd64 (Rep_float64 (valBits c) + Rep_float64 (fromUint64 (ieee_ops oor) (valInt c)))
            < Rep_float64 cur"
      using lt by (simp add: less_float64_def last_eq)
    then have "Rep_float64 (valBits c) + Rep_float64 (fromUint64 (ieee_ops oor) (valInt c))
                 < Rep_float64 cur"
      by (rule rnd64_less_imp_less) (rule Rep_float64_fix)
    then have "Rep_float64 (fromUint64 (ieee_ops oor) (valInt c)) < 2 ^ 63"
      using fv cur63 by simp
    then have iv: "unat (valInt c) < 2 ^ 63" by (rule fromUint64_less_pow2)
    from Counter_Add_monotone [OF fv d0 dle iv add]
    show ?thesis by (simp add: published_def less_eq_float64_def c_def)
  qed
  then show "0 \<le> Rep_float64 (valBits (clone_progress m' ownerUID))"
    and "published (ieee_ops oor) ownerUID m \<le> published (ieee_ops oor) ownerUID m'"
    by simp_all
qed

subsection \<open>No overflow and no division by zero\<close>

text \<open>
  The divisor of a tick is at least 1, the percentage lies between 0 and \<open>2^71\<close>, the
  accumulator \<open>valBits\<close> stays between 0 and \<open>2^72\<close>, and the published value is at most
  \<open>2^73\<close>: far below the largest \<open>float64\<close>.
\<close>

lemma Rep_percentage:
  "Rep_float64 (percentage (ieee_ops oor) c t)
     = rnd64 (rnd64 (rnd64 (of_nat (unat c)) / rnd64 (of_nat (unat t))) * rnd64 100)"
  by (simp add: percentage_def ieee_ops_def)

lemma ieee_percentage_bounded:
  assumes "0 < t"
  shows "1 \<le> Rep_float64 (fromUint64 (ieee_ops oor) t)"
    and "0 \<le> Rep_float64 (percentage (ieee_ops oor) c t)"
    and "Rep_float64 (percentage (ieee_ops oor) c t) \<le> 2 ^ 71"
proof -
  have c: "unat c < 2 ^ 64"
    using unsigned_less [of c, where ?'a = nat] by simp
  have t: "0 < unat t" using assms by (simp add: word_less_nat_alt)
  note b = percentage_bounded_rat [OF c t]
  show "1 \<le> Rep_float64 (fromUint64 (ieee_ops oor) t)"
    unfolding Rep_fromUint64 by (rule b(1))
  show "0 \<le> Rep_float64 (percentage (ieee_ops oor) c t)"
    unfolding Rep_percentage by (rule b(2))
  show "Rep_float64 (percentage (ieee_ops oor) c t) \<le> 2 ^ 71"
    unfolding Rep_percentage by (rule b(3))
qed

lemma percentage_le_100:
  assumes "c \<le> t" and "0 < t"
  shows "Rep_float64 (percentage (ieee_ops oor) c t) \<le> 100"
  unfolding Rep_percentage
  using assms by (intro percentage_le_100_rat) (simp_all add: word_le_nat_alt word_less_nat_alt)

lemma ieee_tick_bounded:
  assumes lo: "0 \<le> Rep_float64 (valBits (clone_progress m ownerUID))"
    and hi: "Rep_float64 (valBits (clone_progress m ownerUID)) \<le> 2 ^ 72"
    and step: "updateProgress (ieee_ops oor) ownerUID r m = Inr m'"
  shows "0 \<le> Rep_float64 (valBits (clone_progress m' ownerUID))
       \<and> Rep_float64 (valBits (clone_progress m' ownerUID)) \<le> 2 ^ 72"
proof -
  define cur where "cur = percentage (ieee_ops oor) (Current (CountingReader r)) (total r)"
  define last where "last = published (ieee_ops oor) ownerUID m"
  define c where "c = clone_progress m ownerUID"
  define d where "d = fsub (ieee_ops oor) cur last"
  from updateProgress_cases [of oor ownerUID r m] step
  have cases: "if 0 < total r \<and> last < cur
     then Counter_Add (ieee_ops oor) d c = Inr (clone_progress m' ownerUID)
     else clone_progress m' = clone_progress m"
    by (auto simp: Let_def cur_def last_def c_def d_def)
  show ?thesis
  proof (cases "0 < total r \<and> last < cur")
    case False
    then show ?thesis using cases lo hi by simp
  next
    case True
    then have lt: "last < cur" and t: "0 < total r" by simp_all
    have add: "Counter_Add (ieee_ops oor) d c = Inr (clone_progress m' ownerUID)"
      using cases True by simp
    have fv: "0 \<le> Rep_float64 (valBits c)" using lo by (simp add: c_def)
    have F: "0 \<le> Rep_float64 (fromUint64 (ieee_ops oor) (valInt c))" by (rule fromUint64_nonneg)
    have last_eq: "Rep_float64 last
                     = rnd64 (Rep_float64 (valBits c) + Rep_float64 (fromUint64 (ieee_ops oor) (valInt c)))"
      by (simp add: last_def published_def c_def Rep_Counter_Write)
    have last0: "0 \<le> Rep_float64 last" unfolding last_eq using fv F by (intro rnd64_ge_0) simp
    have "rnd64 (Rep_float64 (valBits c)) \<le> Rep_float64 last"
      unfolding last_eq using F by (intro rnd64_mono) simp
    then have fv_last: "Rep_float64 (valBits c) \<le> Rep_float64 last"
      by (simp only: Rep_float64_fix)
    have cur71: "Rep_float64 cur \<le> 2 ^ 71"
      unfolding cur_def using t by (rule ieee_percentage_bounded(3))
    have lt': "Rep_float64 last < Rep_float64 cur" using lt by (simp add: less_float64_def)
    have d0: "0 < Rep_float64 d" unfolding d_def using lt by (rule fsub_positive)
    have "Rep_float64 cur - Rep_float64 last \<le> 2 ^ 71" using cur71 last0 by simp
    then have "rnd64 (Rep_float64 cur - Rep_float64 last) \<le> 2 ^ 71" by (rule rnd64_le_pow2)
    then have dle: "Rep_float64 d \<le> 2 ^ 71" by (simp add: d_def ieee_ops_def)
    from Counter_Add_valBits [OF add]
    show ?thesis
    proof
      assume "valBits (clone_progress m' ownerUID) = valBits c"
      then show ?thesis using lo hi by (simp add: c_def)
    next
      assume new: "Rep_float64 (valBits (clone_progress m' ownerUID))
                     = rnd64 (Rep_float64 (valBits c) + Rep_float64 d)"
      have "Rep_float64 (valBits c) + Rep_float64 d \<le> 2 ^ 71 + 2 ^ 71"
        using fv_last lt' cur71 dle by (intro add_mono) simp_all
      also have "\<dots> = (2 ^ 72 :: rat)" by simp
      finally have "rnd64 (Rep_float64 (valBits c) + Rep_float64 d) \<le> 2 ^ 72"
        by (rule rnd64_le_pow2)
      moreover have "0 \<le> rnd64 (Rep_float64 (valBits c) + Rep_float64 d)"
        using fv d0 by (intro rnd64_ge_0) simp
      ultimately show ?thesis by (simp add: new)
    qed
  qed
qed

lemma published_bounded:
  assumes "0 \<le> Rep_float64 (valBits (clone_progress m ownerUID))"
    and "Rep_float64 (valBits (clone_progress m ownerUID)) \<le> 2 ^ 72"
  shows "0 \<le> Rep_float64 (published (ieee_ops oor) ownerUID m)"
    and "Rep_float64 (published (ieee_ops oor) ownerUID m) \<le> 2 ^ 73"
proof -
  define c where "c = clone_progress m ownerUID"
  have F: "0 \<le> Rep_float64 (fromUint64 (ieee_ops oor) (valInt c))" by (rule fromUint64_nonneg)
  have "unat (valInt c) < 2 ^ 64"
    using unsigned_less [of "valInt c", where ?'a = nat] by simp
  then have "(of_nat (unat (valInt c)) :: rat) \<le> of_nat (2 ^ 64)" by (intro of_nat_mono) simp
  then have "(of_nat (unat (valInt c)) :: rat) \<le> 2 ^ 64" by simp
  then have "rnd64 (of_nat (unat (valInt c))) \<le> 2 ^ 64" by (rule rnd64_le_pow2)
  then have F2: "Rep_float64 (fromUint64 (ieee_ops oor) (valInt c)) \<le> 2 ^ 64"
    unfolding Rep_fromUint64 .
  have eq: "Rep_float64 (published (ieee_ops oor) ownerUID m)
              = rnd64 (Rep_float64 (valBits c) + Rep_float64 (fromUint64 (ieee_ops oor) (valInt c)))"
    by (simp add: published_def c_def Rep_Counter_Write)
  show "0 \<le> Rep_float64 (published (ieee_ops oor) ownerUID m)"
    unfolding eq using assms(1) F by (intro rnd64_ge_0) (simp add: c_def)
  have "Rep_float64 (valBits c) + Rep_float64 (fromUint64 (ieee_ops oor) (valInt c))
          \<le> 2 ^ 72 + 2 ^ 64"
    using assms(2) F2 by (intro add_mono) (simp_all add: c_def)
  also have "\<dots> \<le> (2 ^ 73 :: rat)" by simp
  finally show "Rep_float64 (published (ieee_ops oor) ownerUID m) \<le> 2 ^ 73"
    unfolding eq by (rule rnd64_le_pow2)
qed

lemma ieee_ticks_bounded:
  assumes "0 \<le> Rep_float64 (valBits (clone_progress m ownerUID))"
    and "Rep_float64 (valBits (clone_progress m ownerUID)) \<le> 2 ^ 72"
    and "timedUpdateProgress (ieee_ops oor) ownerUID r cs m = Inr m'"
  shows "0 \<le> Rep_float64 (valBits (clone_progress m' ownerUID))
       \<and> Rep_float64 (valBits (clone_progress m' ownerUID)) \<le> 2 ^ 72
       \<and> Rep_float64 (published (ieee_ops oor) ownerUID m') \<le> 2 ^ 73"
  using assms
proof (induction cs arbitrary: m)
  case Nil
  then show ?case using published_bounded(2) [of m ownerUID oor] by simp
next
  case (Cons c cs)
  from Cons.prems(3) obtain m1 where
    step: "updateProgress (ieee_ops oor) ownerUID
             (r\<lparr>CountingReader := (CountingReader r)\<lparr>Current := c\<rparr>\<rparr>) m = Inr m1"
    and rest: "timedUpdateProgress (ieee_ops oor) ownerUID r cs m1 = Inr m'"
    by (auto split: sum.splits)
  from ieee_tick_bounded [OF Cons.prems(1,2) step]
  show ?case using rest by (intro Cons.IH) simp_all
qed

subsection \<open>Sequences of ticks\<close>

lemma ticks_return:
  "\<exists>m'. timedUpdateProgress (ieee_ops oor) ownerUID r cs m = Inr m'"
proof (induction cs arbitrary: m)
  case Nil
  show ?case by simp
next
  case (Cons c cs)
  obtain m1 where "updateProgress (ieee_ops oor) ownerUID
             (r\<lparr>CountingReader := (CountingReader r)\<lparr>Current := c\<rparr>\<rparr>) m = Inr m1"
    using updateProgress_cases [of oor ownerUID _ m] by blast
  then show ?case using Cons.IH [of m1] by simp
qed

lemma ticks_monotone:
  assumes "0 \<le> Rep_float64 (valBits (clone_progress m ownerUID))"
    and "\<forall>c\<in>set cs. Rep_float64 (percentage (ieee_ops oor) c (total r)) \<le> 2 ^ 63"
  shows "\<exists>m'. timedUpdateProgress (ieee_ops oor) ownerUID r cs m = Inr m'
           \<and> 0 \<le> Rep_float64 (valBits (clone_progress m' ownerUID))
           \<and> published (ieee_ops oor) ownerUID m \<le> published (ieee_ops oor) ownerUID m'"
  using assms
proof (induction cs arbitrary: m)
  case Nil
  then show ?case by simp
next
  case (Cons c cs)
  define r' where "r' = r\<lparr>CountingReader := (CountingReader r)\<lparr>Current := c\<rparr>\<rparr>"
  obtain m1 where step: "updateProgress (ieee_ops oor) ownerUID r' m = Inr m1"
    using updateProgress_cases [of oor ownerUID r' m] by blast
  have b: "Rep_float64 (percentage (ieee_ops oor) (Current (CountingReader r')) (total r'))
             \<le> 2 ^ 63"
    using Cons.prems(2) by (simp add: r'_def)
  note t = tick_monotone [OF Cons.prems(1) b step]
  from Cons.prems(2) have "\<forall>c\<in>set cs. Rep_float64 (percentage (ieee_ops oor) c (total r)) \<le> 2 ^ 63"
    by simp
  from Cons.IH [OF t(1) this] obtain m' where
    rest: "timedUpdateProgress (ieee_ops oor) ownerUID r cs m1 = Inr m'"
    and inv: "0 \<le> Rep_float64 (valBits (clone_progress m' ownerUID))"
    and le: "published (ieee_ops oor) ownerUID m1 \<le> published (ieee_ops oor) ownerUID m'"
    by blast
  have "timedUpdateProgress (ieee_ops oor) ownerUID r (c # cs) m = Inr m'"
    using step rest by (simp add: r'_def)
  moreover have "published (ieee_ops oor) ownerUID m \<le> published (ieee_ops oor) ownerUID m'"
    using t(2) le by (rule order_trans)
  ultimately show ?case using inv by blast
qed

lemmas tick_defs =
  published_after_def published_def updateProgress_def Counter_Add_def Counter_Write_def
  ieee_ops_def fresh_registry_def reader200_def Let_def
  float64_of_rat_eq_iff float64_of_rat_less_iff float64_of_rat_less_0_iff
  zero_less_float64_of_rat_iff

text \<open>
  Claim C1, as amended. In \<open>float64\<close> arithmetic, with the counter of the Prometheus
  client, a tick never panics, from any state of the counter, and neither does a sequence
  of ticks. When the total is positive and the percentage \<open>cur\<close> that the tick computes
  exceeds the published value \<open>last\<close>, the tick calls \<open>Add\<close> once, on the counter of the
  owner, with the difference \<open>cur - last\<close>, which is positive; otherwise it leaves every
  counter as it was, also when \<open>cur\<close> is lower than the published value. Over any ticks
  \<open>cs1\<close> followed by any ticks \<open>cs2\<close>, the published value is non-decreasing, provided that
  every percentage computed is at most \<open>2^63\<close> and that the accumulator \<open>valBits\<close> of the
  counter is not negative at the start: it is 0 in a new counter, and no tick makes it
  negative (lemma \<open>ieee_tick_bounded\<close>). The percentage is at most 100 whenever
  \<open>r.Current\<close> is at most the total (lemma \<open>percentage_le_100\<close>).
\<close>

theorem published_progress_monotone:
  "(\<exists>m'. updateProgress (ieee_ops oor) ownerUID r m = Inr m'
      \<and> (let cur = percentage (ieee_ops oor) (Current (CountingReader r)) (total r);
              last = published (ieee_ops oor) ownerUID m
          in if 0 < total r \<and> last < cur
             then tick_log m' = tick_log m
                    @ [Divide (Current (CountingReader r)) (total r), WriteMetric ownerUID last,
                       AddMetric ownerUID (fsub (ieee_ops oor) cur last), Infoln cur]
                \<and> 0 < fsub (ieee_ops oor) cur last
                \<and> Counter_Add (ieee_ops oor) (fsub (ieee_ops oor) cur last)
                     (clone_progress m ownerUID) = Inr (clone_progress m' ownerUID)
                \<and> clone_progress m' = (clone_progress m)(ownerUID := clone_progress m' ownerUID)
             else clone_progress m' = clone_progress m))
   \<and> (\<exists>m'. timedUpdateProgress (ieee_ops oor) ownerUID r (cs1 @ cs2) m = Inr m')
   \<and> (0 \<le> valBits (clone_progress m ownerUID)
        \<and> (\<forall>c\<in>set (cs1 @ cs2). Rep_float64 (percentage (ieee_ops oor) c (total r)) \<le> 2 ^ 63)
      \<longrightarrow> (\<exists>m1 m2. timedUpdateProgress (ieee_ops oor) ownerUID r cs1 m = Inr m1
              \<and> timedUpdateProgress (ieee_ops oor) ownerUID r (cs1 @ cs2) m = Inr m2
              \<and> published (ieee_ops oor) ownerUID m \<le> published (ieee_ops oor) ownerUID m1
              \<and> published (ieee_ops oor) ownerUID m1 \<le> published (ieee_ops oor) ownerUID m2))"
proof (intro conjI impI)
  show "\<exists>m'. updateProgress (ieee_ops oor) ownerUID r m = Inr m'
      \<and> (let cur = percentage (ieee_ops oor) (Current (CountingReader r)) (total r);
              last = published (ieee_ops oor) ownerUID m
          in if 0 < total r \<and> last < cur
             then tick_log m' = tick_log m
                    @ [Divide (Current (CountingReader r)) (total r), WriteMetric ownerUID last,
                       AddMetric ownerUID (fsub (ieee_ops oor) cur last), Infoln cur]
                \<and> 0 < fsub (ieee_ops oor) cur last
                \<and> Counter_Add (ieee_ops oor) (fsub (ieee_ops oor) cur last)
                     (clone_progress m ownerUID) = Inr (clone_progress m' ownerUID)
                \<and> clone_progress m' = (clone_progress m)(ownerUID := clone_progress m' ownerUID)
             else clone_progress m' = clone_progress m)"
    by (rule updateProgress_cases)
  show "\<exists>m'. timedUpdateProgress (ieee_ops oor) ownerUID r (cs1 @ cs2) m = Inr m'"
    by (rule ticks_return)
next
  assume h: "0 \<le> valBits (clone_progress m ownerUID)
        \<and> (\<forall>c\<in>set (cs1 @ cs2). Rep_float64 (percentage (ieee_ops oor) c (total r)) \<le> 2 ^ 63)"
  then have inv: "0 \<le> Rep_float64 (valBits (clone_progress m ownerUID))"
    by (simp add: less_eq_float64_def)
  from h have b1: "\<forall>c\<in>set cs1. Rep_float64 (percentage (ieee_ops oor) c (total r)) \<le> 2 ^ 63"
    and b2: "\<forall>c\<in>set cs2. Rep_float64 (percentage (ieee_ops oor) c (total r)) \<le> 2 ^ 63"
    by simp_all
  from ticks_monotone [OF inv b1] obtain m1 where
    r1: "timedUpdateProgress (ieee_ops oor) ownerUID r cs1 m = Inr m1"
    and inv1: "0 \<le> Rep_float64 (valBits (clone_progress m1 ownerUID))"
    and le1: "published (ieee_ops oor) ownerUID m \<le> published (ieee_ops oor) ownerUID m1"
    by blast
  from ticks_monotone [OF inv1 b2] obtain m2 where
    r2: "timedUpdateProgress (ieee_ops oor) ownerUID r cs2 m1 = Inr m2"
    and le2: "published (ieee_ops oor) ownerUID m1 \<le> published (ieee_ops oor) ownerUID m2"
    by blast
  have "timedUpdateProgress (ieee_ops oor) ownerUID r (cs1 @ cs2) m = Inr m2"
    using r1 r2 by (simp add: timedUpdateProgress_append)
  then show "\<exists>m1 m2. timedUpdateProgress (ieee_ops oor) ownerUID r cs1 m = Inr m1
              \<and> timedUpdateProgress (ieee_ops oor) ownerUID r (cs1 @ cs2) m = Inr m2
              \<and> published (ieee_ops oor) ownerUID m \<le> published (ieee_ops oor) ownerUID m1
              \<and> published (ieee_ops oor) ownerUID m1 \<le> published (ieee_ops oor) ownerUID m2"
    using r1 le1 le2 by blast
qed

text \<open>
  A transfer of 200 bytes, read at 50, 25 and 100 bytes relayed: the published value is
  0, then 25, 25 and 50. The conversion \<open>uint64(v)\<close> of a value out of range is taken to
  give \<open>2^63\<close>, as on amd64; no conversion in this run or in the next one is out of range.
\<close>

theorem published_progress_monotone_witness:
  "(\<exists>m1 m2. timedUpdateProgress (ieee_ops (2 ^ 63)) ''uid'' reader200 [50, 25] fresh_registry
                = Inr m1
        \<and> timedUpdateProgress (ieee_ops (2 ^ 63)) ''uid'' reader200 ([50, 25] @ [100])
            fresh_registry = Inr m2
        \<and> published (ieee_ops (2 ^ 63)) ''uid'' fresh_registry
            \<le> published (ieee_ops (2 ^ 63)) ''uid'' m1
        \<and> published (ieee_ops (2 ^ 63)) ''uid'' m1 \<le> published (ieee_ops (2 ^ 63)) ''uid'' m2)
   \<and> Rep_float64 (published (ieee_ops (2 ^ 63)) ''uid'' fresh_registry) = 0
   \<and> map_option Rep_float64
        (published_after (ieee_ops (2 ^ 63)) ''uid'' reader200 [50, 25] fresh_registry) = Some 25
   \<and> map_option Rep_float64
        (published_after (ieee_ops (2 ^ 63)) ''uid'' reader200 [50, 25, 100] fresh_registry)
       = Some 50"
proof -
  have inv: "0 \<le> valBits (clone_progress fresh_registry ''uid'')"
    by (simp add: fresh_registry_def)
  have "Rep_float64 (percentage (ieee_ops (2 ^ 63)) c (total reader200)) \<le> 2 ^ 63"
    if "c \<in> set ([50, 25] @ [100])" for c
  proof -
    have "Rep_float64 (percentage (ieee_ops (2 ^ 63)) c (total reader200)) \<le> 100"
      using that by (intro percentage_le_100) (auto simp: reader200_def)
    then show ?thesis by simp
  qed
  then have bound: "\<forall>c\<in>set ([50, 25] @ [100]).
      Rep_float64 (percentage (ieee_ops (2 ^ 63)) c (total reader200)) \<le> 2 ^ 63"
    by blast
  have v0: "Rep_float64 (published (ieee_ops (2 ^ 63)) ''uid'' fresh_registry) = 0"
    by (simp add: tick_defs)
  have v1: "map_option Rep_float64
        (published_after (ieee_ops (2 ^ 63)) ''uid'' reader200 [50, 25] fresh_registry) = Some 25"
    by (simp add: tick_defs rnd64_values)
  have v2: "map_option Rep_float64
        (published_after (ieee_ops (2 ^ 63)) ''uid'' reader200 [50, 25, 100] fresh_registry)
       = Some 50"
    by (simp add: tick_defs rnd64_values)
  from published_progress_monotone
         [of "2 ^ 63" "''uid''" reader200 fresh_registry "[50, 25]" "[100]"] inv bound
  have "\<exists>m1 m2. timedUpdateProgress (ieee_ops (2 ^ 63)) ''uid'' reader200 [50, 25] fresh_registry
                = Inr m1
        \<and> timedUpdateProgress (ieee_ops (2 ^ 63)) ''uid'' reader200 ([50, 25] @ [100])
            fresh_registry = Inr m2
        \<and> published (ieee_ops (2 ^ 63)) ''uid'' fresh_registry
            \<le> published (ieee_ops (2 ^ 63)) ''uid'' m1
        \<and> published (ieee_ops (2 ^ 63)) ''uid'' m1 \<le> published (ieee_ops (2 ^ 63)) ''uid'' m2"
    by blast
  with v0 v1 v2 show ?thesis by blast
qed

text \<open>
  Claim C1 as stated fails: with a total of 1 and \<open>r.Current = 2^57\<close> a tick publishes
  \<open>100 * 2^57 = 25 * 2^59\<close>, kept in \<open>valInt\<close>; with \<open>r.Current = 2^58\<close> the next tick adds the
  difference \<open>25 * 2^59\<close> to \<open>valInt\<close>, which wraps around at \<open>2^64\<close> to \<open>9 * 2^60\<close>, and the
  published value falls.
\<close>

theorem published_progress_wraps_counterexample:
  "map_option Rep_float64
     (published_after (ieee_ops (2 ^ 63)) ''uid'' (reader200\<lparr>total := 1\<rparr>) [2 ^ 57]
        fresh_registry) = Some (25 * 2 ^ 59)
   \<and> map_option Rep_float64
       (published_after (ieee_ops (2 ^ 63)) ''uid'' (reader200\<lparr>total := 1\<rparr>) [2 ^ 57, 2 ^ 58]
          fresh_registry) = Some (9 * 2 ^ 60)
   \<and> (9 * 2 ^ 60 :: rat) < 25 * 2 ^ 59"
  by (simp add: tick_defs rnd64_values rnd64_big)

subsection \<open>A total of zero\<close>

text \<open>
  Claim C2. When the total is 0, a tick returns the registry as it was, and so does any
  sequence of ticks: the log of the registry gets no division, no read of the counter and
  no \<open>Add\<close>, and no counter changes.
\<close>

theorem zero_total_publishes_nothing:
  assumes "total r = 0"
  shows "updateProgress ops ownerUID r m = Inr m
       \<and> timedUpdateProgress ops ownerUID r cs m = Inr m"
  using assms by (simp add: updateProgress_idle timedUpdateProgress_idle)

theorem zero_total_publishes_nothing_witness:
  "updateProgress exact_ops ''uid'' (reader200\<lparr>total := 0\<rparr>) registry0 = Inr registry0
   \<and> timedUpdateProgress exact_ops ''uid'' (reader200\<lparr>total := 0\<rparr>) [50, 20, 100] registry0
       = Inr registry0"
  using zero_total_publishes_nothing
    [of "reader200\<lparr>total := 0\<rparr>" exact_ops "''uid''" registry0 "[50, 20, 100]"]
  by simp

end
